theory Spec2Isabelle
  imports Main "HOL-Library.Word" "HOL-Library.Sublist" "HOL-Library.Char_ord"
    "HOL-Library.List_Lexorder" "HOL-Library.Product_Lexorder" "HOL-Library.Multiset"
begin

section \<open>Errors\<close>

text \<open>
  Go errors as values. \<open>ErrPermission\<close> stands for every error on which
  \<^verbatim>\<open>errors.Is(err, fs.ErrPermission)\<close> holds, \<open>Canceled\<close> for
  \<^verbatim>\<open>context.Canceled\<close> (the only error the contexts of this program report),
  \<open>SkipDir\<close> and \<open>SkipAll\<close> for the two sentinel values of \<^verbatim>\<open>io/fs\<close>
  (\<^verbatim>\<open>filepath.SkipDir\<close> is the same value as \<^verbatim>\<open>fs.SkipDir\<close>), and
  \<open>Errorf msg\<close> for any other error, kept by its text.
\<close>

datatype error = ErrPermission | Canceled | SkipDir | SkipAll | Errorf string

section \<open>Lexical paths (path/filepath on a Unix system)\<close>

text \<open>
  \<^verbatim>\<open>filepath.Clean\<close> and \<^verbatim>\<open>filepath.IsAbs\<close> belong to the Go standard
  library. They are modelled for a system whose separator is the slash: a path is cut
  at its separators, empty elements and \<open>.\<close> are dropped, \<open>..\<close> removes the
  element before it when there is one to remove, is kept in a relative path when there
  is none, and is dropped at the root; the empty result is \<open>.\<close>.
\<close>

definition PathSeparator :: char where
  "PathSeparator = CHR ''/''"

fun splitOn :: "char \<Rightarrow> string \<Rightarrow> string list" where
  "splitOn c [] = [[]]"
| "splitOn c (x # xs) =
     (if x = c then [] # splitOn c xs
      else (case splitOn c xs of
              [] \<Rightarrow> [[x]]
            | w # ws \<Rightarrow> (x # w) # ws))"

fun joinSep :: "string list \<Rightarrow> string" where
  "joinSep [] = []"
| "joinSep [e] = e"
| "joinSep (e # f # es) = e @ PathSeparator # joinSep (f # es)"

fun cleanElems :: "bool \<Rightarrow> string list \<Rightarrow> string list \<Rightarrow> string list" where
  "cleanElems rooted out [] = out"
| "cleanElems rooted out (e # es) =
     (if e = [] \<or> e = ''.'' then cleanElems rooted out es
      else if e = ''..'' then
        (if out \<noteq> [] \<and> last out \<noteq> ''..'' then cleanElems rooted (butlast out) es
         else if \<not> rooted then cleanElems rooted (out @ [''..'']) es
         else cleanElems rooted out es)
      else cleanElems rooted (out @ [e]) es)"

definition Clean :: "string \<Rightarrow> string" where
  "Clean path =
     (if path = [] then ''.''
      else
        (let rooted = (hd path = PathSeparator);
             out = joinSep (cleanElems rooted [] (splitOn PathSeparator path))
         in if rooted then PathSeparator # out
            else if out = [] then ''.''
            else out))"

definition IsAbs :: "string \<Rightarrow> bool" where
  "IsAbs path = (path \<noteq> [] \<and> hd path = PathSeparator)"

section \<open>PathGuard and the delete command\<close>

text \<open>\<^verbatim>\<open>validateDeletePath\<close> of model.go: the cleaned path, or the error.\<close>

definition validateDeletePath :: "string \<Rightarrow> error + string" where
  "validateDeletePath relPath =
     (if relPath = [] then Inl (Errorf ''delete: empty path'')
      else
        (let cleaned = Clean relPath
         in if cleaned = ''.'' \<or> cleaned = [PathSeparator]
            then Inl (Errorf ''delete: refusing to delete root'')
            else if IsAbs cleaned
            then Inl (Errorf ''delete: absolute paths are not allowed'')
            else Inr cleaned))"

record deleteResult =
  Path :: string
  Err :: "error option"

text \<open>
  \<^verbatim>\<open>deleteCmd\<close> of model.go, run on a filesystem \<open>fs\<close>. \<open>root\<close> is the
  confined-root handle (\<open>None\<close> is the nil pointer) and \<open>RemoveAll\<close> is
  \<^verbatim>\<open>(*os.Root).RemoveAll\<close>, which returns its error and the filesystem it leaves.
  The third component of the result lists the calls of \<open>RemoveAll\<close> that were made.
\<close>

definition deleteCmd ::
  "('h \<Rightarrow> string \<Rightarrow> 'fs \<Rightarrow> error option \<times> 'fs) \<Rightarrow> 'h option \<Rightarrow> string \<Rightarrow> 'fs
     \<Rightarrow> deleteResult \<times> 'fs \<times> string list" where
  "deleteCmd RemoveAll root relPath fs =
     (case validateDeletePath relPath of
        Inl err \<Rightarrow> (\<lparr>Path = relPath, Err = Some err\<rparr>, fs, [])
      | Inr cleaned \<Rightarrow>
          (case root of
             None \<Rightarrow>
               (\<lparr>Path = cleaned, Err = Some (Errorf ''delete: root handle is nil'')\<rparr>, fs, [])
           | Some h \<Rightarrow>
               (let (removeErr, fs') = RemoveAll h cleaned fs
                in (\<lparr>Path = cleaned, Err = removeErr\<rparr>, fs', [cleaned]))))"

section \<open>Rows and their order\<close>

text \<open>\<^verbatim>\<open>rowData\<close> of model.go. \<^verbatim>\<open>SizeBytes\<close> is an \<^verbatim>\<open>int64\<close>: a 64-bit word read as signed.\<close>

type_synonym int64 = "64 word"

record rowData =
  RelPath :: string
  Target :: string
  Category :: string
  SizeBytes :: int64
  Marked :: bool
  Deleted :: bool
  DeleteErr :: string

datatype sortMode = sortBySizeDesc | sortBySizeAsc | sortByNameAsc

text \<open>
  \<^verbatim>\<open>strings.ToLower\<close>, on the bytes of a string: the letters \<open>A\<close> to \<open>Z\<close> are
  lowered and every other byte is kept. (Go also lowers the upper-case letters outside
  ASCII; the order below is therefore defined for any lowering function \<open>lower\<close>,
  and the controller uses it with \<open>ToLower\<close>.)
\<close>

definition lowerChar :: "char \<Rightarrow> char" where
  "lowerChar c =
     (case map_of (zip ''ABCDEFGHIJKLMNOPQRSTUVWXYZ'' ''abcdefghijklmnopqrstuvwxyz'') c of
        None \<Rightarrow> c
      | Some d \<Rightarrow> d)"

definition ToLower :: "string \<Rightarrow> string" where
  "ToLower s = map lowerChar s"

text \<open>
  The comparison that \<^verbatim>\<open>sortRows\<close> hands to \<^verbatim>\<open>sort.SliceStable\<close>. Go compares
  strings byte by byte, which is the lexicographic order of \<open>char list\<close>, and
  \<^verbatim>\<open>int64\<close> values as signed numbers.
\<close>

definition rowLess :: "(string \<Rightarrow> string) \<Rightarrow> sortMode \<Rightarrow> rowData \<Rightarrow> rowData \<Rightarrow> bool" where
  "rowLess lower mode left right =
     (if Deleted left \<noteq> Deleted right then \<not> Deleted left
      else
        (case mode of
           sortBySizeAsc \<Rightarrow>
             (if SizeBytes left = SizeBytes right
              then lower (RelPath left) < lower (RelPath right)
              else sint (SizeBytes left) < sint (SizeBytes right))
         | sortByNameAsc \<Rightarrow> lower (RelPath left) < lower (RelPath right)
         | sortBySizeDesc \<Rightarrow>
             (if SizeBytes left = SizeBytes right
              then lower (RelPath left) < lower (RelPath right)
              else sint (SizeBytes left) > sint (SizeBytes right))))"

text \<open>
  \<^verbatim>\<open>sort.SliceStable\<close> sorts by a comparison and keeps equal elements in their
  original order. It is modelled by the stable insertion sort: each element is put
  before the first element that is not less than it.
\<close>

fun insertStable :: "('a \<Rightarrow> 'a \<Rightarrow> bool) \<Rightarrow> 'a \<Rightarrow> 'a list \<Rightarrow> 'a list" where
  "insertStable lt x [] = [x]"
| "insertStable lt x (y # ys) =
     (if lt y x then y # insertStable lt x ys else x # y # ys)"

definition SliceStable :: "('a \<Rightarrow> 'a \<Rightarrow> bool) \<Rightarrow> 'a list \<Rightarrow> 'a list" where
  "SliceStable lt xs = foldr (insertStable lt) xs []"

definition sortRowsBy :: "(string \<Rightarrow> string) \<Rightarrow> sortMode \<Rightarrow> rowData list \<Rightarrow> rowData list" where
  "sortRowsBy lower mode rows = SliceStable (rowLess lower mode) rows"

fun nextSortMode :: "sortMode \<Rightarrow> sortMode" where
  "nextSortMode sortBySizeDesc = sortBySizeAsc"
| "nextSortMode sortBySizeAsc = sortByNameAsc"
| "nextSortMode _ = sortBySizeDesc"

text \<open>
  The key by which \<open>rowLess\<close> orders rows: deleted rows last, then the size (negated
  for the descending mode, absent for the name mode), then the lowered path.
\<close>

definition rowKey :: "(string \<Rightarrow> string) \<Rightarrow> sortMode \<Rightarrow> rowData \<Rightarrow> bool \<times> int \<times> string" where
  "rowKey lower mode r =
     (Deleted r,
      (case mode of
         sortBySizeAsc \<Rightarrow> sint (SizeBytes r)
       | sortByNameAsc \<Rightarrow> 0
       | sortBySizeDesc \<Rightarrow> - sint (SizeBytes r)),
      lower (RelPath r))"

text \<open>Rows for the examples: the two of the scenario of the specification, a deleted
  row and a marked one.\<close>

definition rowNodeModules :: rowData where
  "rowNodeModules = \<lparr>RelPath = ''proj/node_modules'', Target = ''node_modules'',
     Category = ''node'', SizeBytes = 1024, Marked = False, Deleted = False, DeleteErr = []\<rparr>"

definition rowTarget :: rowData where
  "rowTarget = \<lparr>RelPath = ''proj/target'', Target = ''target'',
     Category = ''rust'', SizeBytes = 2048, Marked = False, Deleted = False, DeleteErr = []\<rparr>"

definition rowDist :: rowData where
  "rowDist = \<lparr>RelPath = ''Old/dist'', Target = ''dist'',
     Category = ''node'', SizeBytes = 4096, Marked = False, Deleted = True, DeleteErr = []\<rparr>"

definition rowBuild :: rowData where
  "rowBuild = \<lparr>RelPath = ''Proj/build'', Target = ''build'',
     Category = ''misc'', SizeBytes = 1024, Marked = True, Deleted = False, DeleteErr = []\<rparr>"

section \<open>The filesystem seen through the root handle\<close>

text \<open>
  What the walk reads of a directory entry (\<^verbatim>\<open>fs.DirEntry\<close>): its name, whether it
  is a directory, whether its type has the \<^verbatim>\<open>os.ModeSymlink\<close> bit, and what
  \<^verbatim>\<open>Info()\<close> gives: the size, or an error. An error of the filesystem is a permission
  error or another failure, kept by its text.
\<close>

datatype ioError = PermissionDenied | IOFailure string

fun asError :: "ioError \<Rightarrow> error" where
  "asError PermissionDenied = ErrPermission"
| "asError (IOFailure msg) = Errorf msg"

record dirEntry =
  EntryName :: string
  EntryIsDir :: bool
  EntrySymlink :: bool
  EntryInfo :: "ioError + int64"

text \<open>
  A file tree: an entry and, for a directory, the result of \<^verbatim>\<open>ReadDir\<close> on it, which
  is the entries that were read and possibly an error. The root handle's filesystem is
  a function from a slash-separated path to the tree found there, or the error of
  \<^verbatim>\<open>Stat\<close>.
\<close>

datatype fsTree = Node dirEntry "ioError option" "fsTree list"

type_synonym rootFS = "string \<Rightarrow> ioError + fsTree"

fun entry :: "fsTree \<Rightarrow> dirEntry" where
  "entry (Node d rerr dirs) = d"

subsection \<open>Cancellation\<close>

text \<open>
  A \<^verbatim>\<open>context.Context\<close> is cancelled from outside at an unknown moment and stays
  cancelled. The walk only observes it through \<^verbatim>\<open>ctx.Err()\<close>, so a context is
  modelled by the number of calls that still find it alive: \<open>Background\<close> is never
  cancelled, \<open>CancelAfter n\<close> answers \<open>n\<close> more calls with nil and then reports
  \<^verbatim>\<open>context.Canceled\<close>, and \<open>Cancelled\<close> has been seen cancelled.
\<close>

datatype "context" = Background | CancelAfter nat | Cancelled

fun ctxErr :: "context \<Rightarrow> bool \<times> context" where
  "ctxErr Background = (False, Background)"
| "ctxErr (CancelAfter 0) = (True, Cancelled)"
| "ctxErr (CancelAfter (Suc n)) = (False, CancelAfter n)"
| "ctxErr Cancelled = (True, Cancelled)"

subsection \<open>fs.WalkDir\<close>

text \<open>
  \<^verbatim>\<open>path.Join(name, d1.Name())\<close> as \<^verbatim>\<open>fs.WalkDir\<close> uses it: the walk starts at
  a clean path and entry names hold no separator and are not dots, so joining adds the
  name after a separator, and under the root \<open>.\<close> gives the name alone.
\<close>

definition pathJoin :: "string \<Rightarrow> string \<Rightarrow> string" where
  "pathJoin name child = (if name = ''.'' then child else name @ PathSeparator # child)"

text \<open>
  \<^verbatim>\<open>walkDir\<close> and \<^verbatim>\<open>WalkDir\<close> of the standard library, with the state \<open>'s\<close>
  of the callback threaded through. The callback gets the path, the entry (\<open>None\<close>
  is the nil entry of a failed \<^verbatim>\<open>Stat\<close> of the root) and the error, and returns
  its error. \<open>walkDirs\<close> is the loop over the entries of a directory.
\<close>

type_synonym 's walkDirFunc = "string \<Rightarrow> dirEntry option \<Rightarrow> error option \<Rightarrow> 's \<Rightarrow> error option \<times> 's"

fun walkDir :: "'s walkDirFunc \<Rightarrow> string \<Rightarrow> fsTree \<Rightarrow> 's \<Rightarrow> error option \<times> 's"
  and walkDirs :: "'s walkDirFunc \<Rightarrow> string \<Rightarrow> fsTree list \<Rightarrow> 's \<Rightarrow> error option \<times> 's" where
  "walkDir fn name (Node d rerr dirs) s =
     (case fn name (Some d) None s of
        (Some err, s1) \<Rightarrow>
          (if err = SkipDir \<and> EntryIsDir d then (None, s1) else (Some err, s1))
      | (None, s1) \<Rightarrow>
          (if \<not> EntryIsDir d then (None, s1)
           else
             (case rerr of
                Some e \<Rightarrow>
                  (case fn name (Some d) (Some (asError e)) s1 of
                     (Some err, s2) \<Rightarrow>
                       (if err = SkipDir \<and> EntryIsDir d then (None, s2) else (Some err, s2))
                   | (None, s2) \<Rightarrow> walkDirs fn name dirs s2)
              | None \<Rightarrow> walkDirs fn name dirs s1)))"
| "walkDirs fn name [] s = (None, s)"
| "walkDirs fn name (d1 # rest) s =
     (case walkDir fn (pathJoin name (EntryName (entry d1))) d1 s of
        (Some err, s1) \<Rightarrow> (if err = SkipDir then (None, s1) else (Some err, s1))
      | (None, s1) \<Rightarrow> walkDirs fn name rest s1)"

definition WalkDir :: "'s walkDirFunc \<Rightarrow> rootFS \<Rightarrow> string \<Rightarrow> 's \<Rightarrow> error option \<times> 's" where
  "WalkDir fn fsys root s =
     (let (err, s') =
            (case fsys root of
               Inl e \<Rightarrow> fn root None (Some (asError e)) s
             | Inr t \<Rightarrow> walkDir fn root t s)
      in if err = Some SkipDir \<or> err = Some SkipAll then (None, s') else (err, s'))"

subsection \<open>SizeAccumulator\<close>

text \<open>
  The callback of \<^verbatim>\<open>dirSize\<close>; its state is the context and the running
  \<^verbatim>\<open>size\<close> (here \<open>bytes\<close>). \<^verbatim>\<open>WalkDir\<close> passes a nil entry only together with an error, so the
  branch of a nil entry without error is never taken (Go would panic there).
\<close>

definition dirSizeFn :: "(context \<times> int64) walkDirFunc" where
  "dirSizeFn path ent err s =
     (case s of (ctx, bytes) \<Rightarrow>
        (case ctxErr ctx of (cancelled, ctx') \<Rightarrow>
           (if cancelled then (Some Canceled, (ctx', bytes))
            else
              (case err of
                 Some e \<Rightarrow> (Some e, (ctx', bytes))
               | None \<Rightarrow>
                   (case ent of
                      None \<Rightarrow> (Some (Errorf ''nil DirEntry''), (ctx', bytes))
                    | Some d \<Rightarrow>
                        (if EntryIsDir d then
                           (if EntrySymlink d then (Some SkipDir, (ctx', bytes))
                            else (None, (ctx', bytes)))
                         else
                           (case EntryInfo d of
                              Inl infoErr \<Rightarrow> (Some (asError infoErr), (ctx', bytes))
                            | Inr sz \<Rightarrow> (None, (ctx', bytes + sz)))))))))"

text \<open>
  \<^verbatim>\<open>dirSize\<close>: the size or the error, and the context as the walk leaves it.
  \<^verbatim>\<open>filepath.ToSlash\<close> changes nothing where the separator is the slash.
\<close>

definition dirSize :: "context \<Rightarrow> rootFS option \<Rightarrow> string \<Rightarrow> (error + int64) \<times> context" where
  "dirSize ctx root relPath =
     (case root of
        None \<Rightarrow> (Inl (Errorf ''dirSize: root handle is nil''), ctx)
      | Some fsys \<Rightarrow>
          (case WalkDir dirSizeFn fsys relPath (ctx, 0) of
             (Some err, (ctx', bytes)) \<Rightarrow> (Inl err, ctx')
           | (None, (ctx', bytes)) \<Rightarrow> (Inr bytes, ctx')))"

text \<open>
  The totals that \<open>dirSize\<close> is compared with. \<open>entriesTotal\<close> adds the size of
  every entry that is not a directory, below directories that are not symbolic links;
  \<open>regularTotal\<close> adds the sizes of the regular files only: the entries that are
  neither directories nor symbolic links.
\<close>

fun entriesTotal :: "fsTree \<Rightarrow> int64" where
  "entriesTotal (Node d rerr dirs) =
     (if EntryIsDir d then
        (if EntrySymlink d then 0 else sum_list (map entriesTotal dirs))
      else (case EntryInfo d of Inl e \<Rightarrow> 0 | Inr sz \<Rightarrow> sz))"

fun regularTotal :: "fsTree \<Rightarrow> int64" where
  "regularTotal (Node d rerr dirs) =
     (if EntryIsDir d then
        (if EntrySymlink d then 0 else sum_list (map regularTotal dirs))
      else if EntrySymlink d then 0
      else (case EntryInfo d of Inl e \<Rightarrow> 0 | Inr sz \<Rightarrow> sz))"

text \<open>
  A tree that can be read without error: every directory below it that the walk
  enters lists its entries, and every other entry has its \<^verbatim>\<open>Info\<close>.
\<close>

fun readable :: "fsTree \<Rightarrow> bool" where
  "readable (Node d rerr dirs) =
     (if EntryIsDir d then
        (EntrySymlink d \<or> (rerr = None \<and> list_all readable dirs))
      else (case EntryInfo d of Inl e \<Rightarrow> False | Inr sz \<Rightarrow> True))"

text \<open>Entries and trees for the examples.\<close>

definition fileEntry :: "string \<Rightarrow> int64 \<Rightarrow> fsTree" where
  "fileEntry name sz =
     Node \<lparr>EntryName = name, EntryIsDir = False, EntrySymlink = False, EntryInfo = Inr sz\<rparr> None []"

definition linkEntry :: "string \<Rightarrow> int64 \<Rightarrow> fsTree" where
  "linkEntry name sz =
     Node \<lparr>EntryName = name, EntryIsDir = False, EntrySymlink = True, EntryInfo = Inr sz\<rparr> None []"

definition dirEntryOf :: "string \<Rightarrow> fsTree list \<Rightarrow> fsTree" where
  "dirEntryOf name dirs =
     Node \<lparr>EntryName = name, EntryIsDir = True, EntrySymlink = False, EntryInfo = Inr 4096\<rparr> None dirs"

text \<open>
  A tree below which no entry other than a directory is a symbolic link: there the two
  totals agree.
\<close>

fun linkFree :: "fsTree \<Rightarrow> bool" where
  "linkFree (Node d rerr dirs) =
     (if EntryIsDir d then (EntrySymlink d \<or> list_all linkFree dirs)
      else \<not> EntrySymlink d)"

text \<open>
  The filesystem of a root handle opened on a tree that does not change: the path
  \<open>.\<close> is the tree, and any other path is followed by the names of its elements.
\<close>

fun lookupPath :: "fsTree \<Rightarrow> string list \<Rightarrow> ioError + fsTree" where
  "lookupPath t [] = Inr t"
| "lookupPath (Node d rerr dirs) (n # ns) =
     (case find (\<lambda>k. EntryName (entry k) = n) dirs of
        None \<Rightarrow> Inl (IOFailure ''file does not exist'')
      | Some k \<Rightarrow> lookupPath k ns)"

definition treeFS :: "fsTree \<Rightarrow> rootFS" where
  "treeFS t path = (if path = ''.'' then Inr t else lookupPath t (splitOn PathSeparator path))"

text \<open>
  Notions for the proofs about walks. \<open>fromCall fn r s'\<close>: the result \<open>r\<close> and the
  state \<open>s'\<close> of a walk are those of a call of the callback, but that a skip may
  have been taken. \<open>sizeOk t\<close>: what a walk of \<open>dirSize\<close> over \<open>t\<close> yields.
\<close>

definition fromCall :: "'s walkDirFunc \<Rightarrow> error option \<Rightarrow> 's \<Rightarrow> bool" where
  "fromCall fn r s' =
     (\<exists>path ent err s0 r0. fn path ent (map_option asError err) s0 = (r0, s') \<and>
        (r = r0 \<or> (r = None \<and> (r0 = Some SkipDir \<or> r0 = Some SkipAll))))"

definition sizeOk :: "fsTree \<Rightarrow> bool" where
  "sizeOk t = (\<forall>name ctx acc r ctx' acc'.
     walkDir dirSizeFn name t (ctx, acc) = (r, (ctx', acc')) \<longrightarrow>
       r \<noteq> Some SkipDir \<and> r \<noteq> Some SkipAll \<and> (r = None \<longrightarrow> acc' = acc + entriesTotal t))"

section \<open>ScanStreamer\<close>

text \<open>\<^verbatim>\<open>TargetDef\<close> of targets.go and \<^verbatim>\<open>ScanOptions\<close>. A Go map from names is a
  partial function, a map to \<^verbatim>\<open>struct{}\<close> a set. \<^verbatim>\<open>MaxDepth\<close> is an \<^verbatim>\<open>int\<close>.\<close>

record TargetDef =
  DefName :: string
  DefCategory :: string

record ScanOptions =
  Root :: string
  RootHandle :: "rootFS option"
  Targets :: "string \<rightharpoonup> TargetDef"
  MaxDepth :: int
  SkipDirs :: "string set"

text \<open>
  The messages of the program (\<^verbatim>\<open>tea.Msg\<close>), by their Go types and fields. A channel
  is known by a number. The fields that hold a duration are left out: the model has no
  clock. \<open>KeyMsg\<close> carries the text that \<^verbatim>\<open>msg.String()\<close> gives for the key.
\<close>

type_synonym chan = nat

datatype msg =
    WindowSizeMsg int int
  | SpinnerTickMsg
  | ProgressFrameMsg
  | scanStreamMsg int chan
  | scanRowMsg int rowData
  | scanProgressMsg int nat nat
  | scanFinishedMsg int "string list" "error option" nat nat
  | scanPulseMsg
  | deleteResultMsg deleteResult
  | recalcSizeMsg string int64 "error option"
  | KeyMsg string

text \<open>
  The variables of \<^verbatim>\<open>runScanStream\<close> that its callback changes, the messages sent
  on \<^verbatim>\<open>out\<close> so far, and the context (their names carry an \<open>s\<close>). Whether
  more than 200ms have passed since the last progress message is not decided by the
  program: \<open>sDue\<close> holds the answers
  that the coming unforced calls of \<^verbatim>\<open>sendProgress\<close> will get (none left: not yet).
\<close>

record scanState =
  sCtx :: "context"
  sWarnings :: "string list"
  sVisited :: nat
  sFound :: nat
  sOut :: "msg list"
  sDue :: "bool list"

definition sendProgress :: "int \<Rightarrow> bool \<Rightarrow> scanState \<Rightarrow> scanState" where
  "sendProgress sid force st =
     (if force then st\<lparr>sOut := sOut st @ [scanProgressMsg sid (sVisited st) (sFound st)]\<rparr>
      else
        (case sDue st of
           [] \<Rightarrow> st
         | elapsed # later \<Rightarrow>
             (if elapsed
              then st\<lparr>sOut := sOut st @ [scanProgressMsg sid (sVisited st) (sFound st)], sDue := later\<rparr>
              else st\<lparr>sDue := later\<rparr>)))"

definition relativeDepth :: "string \<Rightarrow> int" where
  "relativeDepth relPath =
     (let trimmed = (if prefix ''./'' relPath then drop 2 relPath else relPath)
      in if trimmed = ''.'' \<or> trimmed = [] then 0
         else int (count_list trimmed PathSeparator))"

definition permissionWarning :: "string \<Rightarrow> string" where
  "permissionWarning path = ''permission denied: '' @ path"

text \<open>
  The callback that \<^verbatim>\<open>runScanStream\<close> gives to \<^verbatim>\<open>fs.WalkDir\<close>.
  \<^verbatim>\<open>filepath.FromSlash\<close> changes nothing where the separator is the slash.
\<close>

definition scanFn :: "ScanOptions \<Rightarrow> int \<Rightarrow> scanState walkDirFunc" where
  "scanFn opts sid path ent err st0 =
     (case ctxErr (sCtx st0) of (cancelled, ctx') \<Rightarrow>
        (let st = st0\<lparr>sCtx := ctx'\<rparr> in
         if cancelled then (Some Canceled, st)
         else
           (case err of
              Some e \<Rightarrow>
                (if e = ErrPermission
                 then (Some SkipDir, st\<lparr>sWarnings := sWarnings st @ [permissionWarning path]\<rparr>)
                 else (Some e, st))
            | None \<Rightarrow>
                (case ent of
                   None \<Rightarrow> (Some (Errorf ''nil DirEntry''), st)
                 | Some d \<Rightarrow>
                     (if EntryIsDir d then
                        (let st1 = sendProgress sid False (st\<lparr>sVisited := sVisited st + 1\<rparr>);
                             name = EntryName d
                         in if name \<in> SkipDirs opts then (Some SkipDir, st1)
                            else if EntrySymlink d then (Some SkipDir, st1)
                            else if MaxDepth opts > 0 \<and> relativeDepth path > MaxDepth opts
                            then (Some SkipDir, st1)
                            else
                              (case Targets opts name of
                                 Some def \<Rightarrow>
                                   (case dirSize (sCtx st1) (RootHandle opts) path of
                                      (Inl sizeErr, ctx2) \<Rightarrow>
                                        (if sizeErr = ErrPermission
                                         then (Some SkipDir,
                                               st1\<lparr>sCtx := ctx2,
                                                   sWarnings := sWarnings st1 @ [permissionWarning path]\<rparr>)
                                         else (Some sizeErr, st1\<lparr>sCtx := ctx2\<rparr>))
                                    | (Inr bytes, ctx2) \<Rightarrow>
                                        (Some SkipDir,
                                         sendProgress sid True
                                           (st1\<lparr>sCtx := ctx2, sFound := sFound st1 + 1,
                                               sOut := sOut st1 @
                                                 [scanRowMsg sid
                                                    \<lparr>RelPath = path, Target = DefName def,
                                                     Category = DefCategory def, SizeBytes = bytes,
                                                     Marked = False, Deleted = False,
                                                     DeleteErr = []\<rparr>]\<rparr>)))
                               | None \<Rightarrow> (None, st1)))
                      else (None, st))))))"

text \<open>
  \<^verbatim>\<open>runScanStream\<close>: the messages sent on the channel, in order, and the context as
  the scan leaves it.
\<close>

definition runScanStream :: "context \<Rightarrow> ScanOptions \<Rightarrow> int \<Rightarrow> bool list \<Rightarrow> msg list \<times> context" where
  "runScanStream ctx opts sid elapsed =
     (case RootHandle opts of
        None \<Rightarrow>
          ([scanFinishedMsg sid [] (Some (Errorf ''scan: root handle is nil'')) 0 0], ctx)
      | Some rootFS \<Rightarrow>
          (case WalkDir (scanFn opts sid) rootFS ''.''
                  \<lparr>sCtx = ctx, sWarnings = [], sVisited = 0, sFound = 0, sOut = [], sDue = elapsed\<rparr> of
             (err, st) \<Rightarrow>
               (let err' = (if err = Some Canceled then None else err);
                    st' = sendProgress sid True st
                in (sOut st' @ [scanFinishedMsg sid (sWarnings st') err' (sVisited st') (sFound st')],
                    sCtx st'))))"

text \<open>The rows among a list of messages.\<close>

fun scanRows :: "msg list \<Rightarrow> rowData list" where
  "scanRows [] = []"
| "scanRows (scanRowMsg sid row # ms) = row # scanRows ms"
| "scanRows (m # ms) = scanRows ms"

text \<open>The scenario of the specification: \<open>proj/node_modules\<close> with two files of 100
  and 924 bytes, \<open>proj/target\<close> with one file of 2048 bytes, and the two targets.\<close>

definition scenarioTree :: fsTree where
  "scenarioTree =
     dirEntryOf ''.''
       [dirEntryOf ''proj''
          [dirEntryOf ''node_modules'' [fileEntry ''a.js'' 100, fileEntry ''b.js'' 924],
           dirEntryOf ''target'' [fileEntry ''debug'' 2048]]]"

definition scenarioOpts :: ScanOptions where
  "scenarioOpts =
     \<lparr>Root = ''/home/dev'', RootHandle = Some (treeFS scenarioTree),
      Targets = [''node_modules'' \<mapsto> \<lparr>DefName = ''node_modules'', DefCategory = ''node''\<rparr>,
                 ''target'' \<mapsto> \<lparr>DefName = ''target'', DefCategory = ''rust''\<rparr>],
      MaxDepth = 0, SkipDirs = {''.git'', ''.hg'', ''.svn''}\<rparr>"

text \<open>
  Two abbreviations for the proofs about the callback: the state after a directory has
  been counted as visited, and the three conditions under which it is skipped before
  the catalog is consulted.
\<close>

definition visitState :: "int \<Rightarrow> context \<Rightarrow> scanState \<Rightarrow> scanState" where
  "visitState sid c s0 = sendProgress sid False (s0\<lparr>sCtx := c, sVisited := sVisited s0 + 1\<rparr>)"

definition skipped :: "ScanOptions \<Rightarrow> string \<Rightarrow> dirEntry \<Rightarrow> bool" where
  "skipped opts path d =
     (EntryName d \<in> SkipDirs opts \<or> EntrySymlink d
      \<or> (MaxDepth opts > 0 \<and> relativeDepth path > MaxDepth opts))"

definition rowOf :: "string \<Rightarrow> TargetDef \<Rightarrow> int64 \<Rightarrow> rowData" where
  "rowOf path def bytes =
     \<lparr>RelPath = path, Target = DefName def, Category = DefCategory def, SizeBytes = bytes,
      Marked = False, Deleted = False, DeleteErr = []\<rparr>"

text \<open>
  \<open>emittedBy opts sid m\<close>: \<open>m\<close> is a message that the walk of scan \<open>sid\<close> can
  send: a progress message, or the row of a path together with the size that
  \<open>dirSize\<close> gave for that path.
\<close>

definition emittedBy :: "ScanOptions \<Rightarrow> int \<Rightarrow> msg \<Rightarrow> bool" where
  "emittedBy opts sid m =
     ((\<exists>v f. m = scanProgressMsg sid v f)
      \<or> (\<exists>path def n c c2. m = scanRowMsg sid (rowOf path def n)
            \<and> dirSize c (RootHandle opts) path = (Inr n, c2)))"

fun isFinished :: "msg \<Rightarrow> bool" where
  "isFinished (scanFinishedMsg sid ws e v f) = True"
| "isFinished m = False"

text \<open>The state in which \<^verbatim>\<open>runScanStream\<close> starts its walk.\<close>

definition scanStart :: "context \<Rightarrow> bool list \<Rightarrow> scanState" where
  "scanStart ctx elapsed =
     \<lparr>sCtx = ctx, sWarnings = [], sVisited = 0, sFound = 0, sOut = [], sDue = elapsed\<rparr>"






text \<open>A project whose \<open>node_modules\<close> holds, next to its two files, a symbolic
  link of seven bytes.\<close>

definition linkedModules :: fsTree where
  "linkedModules =
     dirEntryOf ''node_modules''
       [fileEntry ''a.js'' 100, fileEntry ''b.js'' 924, linkEntry ''tool'' 7]"

definition linkedTree :: fsTree where
  "linkedTree = dirEntryOf ''.'' [dirEntryOf ''proj'' [linkedModules]]"

definition scenarioModules :: fsTree where
  "scenarioModules =
     dirEntryOf ''node_modules'' [fileEntry ''a.js'' 100, fileEntry ''b.js'' 924]"

text \<open>
  Well-formed trees: the name of an entry of a directory is not empty, holds no
  separator and is neither \<open>.\<close> nor \<open>..\<close>, and the entries of one directory have
  different names. \<open>pathOf\<close> is the path that the walk builds for the names on the
  way from the root, and \<open>rowPaths\<close> are the paths of the rows sent so far. A list of
  such ways is an \<open>antichain\<close> when no way occurs twice or continues another.
\<close>

definition wfName :: "string \<Rightarrow> bool" where
  "wfName n = (n \<noteq> [] \<and> PathSeparator \<notin> set n \<and> n \<noteq> ''.'' \<and> n \<noteq> ''..'')"

fun wfTree :: "fsTree \<Rightarrow> bool" where
  "wfTree (Node d rerr dirs) =
     (distinct (map (\<lambda>k. EntryName (entry k)) dirs)
      \<and> (\<forall>k \<in> set dirs. wfName (EntryName (entry k)) \<and> wfTree k))"

definition pathOf :: "string list \<Rightarrow> string" where
  "pathOf cs = (if cs = [] then ''.'' else joinSep cs)"

definition rowPaths :: "scanState \<Rightarrow> string list" where
  "rowPaths s = map RelPath (scanRows (sOut s))"

definition antichain :: "string list list \<Rightarrow> bool" where
  "antichain dss = (distinct dss \<and> (\<forall>a \<in> set dss. \<forall>b \<in> set dss. prefix a b \<longrightarrow> a = b))"

text \<open>\<open>leaves cs s s' dss\<close>: from state \<open>s\<close> to state \<open>s'\<close> the rows of the ways
  \<open>dss\<close> below \<open>cs\<close> were sent, and these form an antichain of well-formed names.\<close>

definition leaves :: "string list \<Rightarrow> scanState \<Rightarrow> scanState \<Rightarrow> string list list \<Rightarrow> bool" where
  "leaves cs s s' dss =
     (rowPaths s' = rowPaths s @ map (\<lambda>ds. pathOf (cs @ ds)) dss
      \<and> antichain dss \<and> (\<forall>ds \<in> set dss. \<forall>n \<in> set ds. wfName n))"

text \<open>
  \<open>within n c v\<close>: of a context that answers at most \<open>n\<close> calls with nil, the
  calls answered so far and those that \<open>c\<close> will still answer are at most \<open>n\<close>,
  where \<open>v\<close> calls at least have been answered.
\<close>

fun within :: "nat \<Rightarrow> context \<Rightarrow> nat \<Rightarrow> bool" where
  "within n Background v = False"
| "within n (CancelAfter k) v = (v + k \<le> n)"
| "within n Cancelled v = (v \<le> n)"

text \<open>A project whose \<open>node_modules\<close> holds a package with a \<open>node_modules\<close>
  and a \<open>target\<close> of its own.\<close>

definition nestedTree :: fsTree where
  "nestedTree =
     dirEntryOf ''.''
       [dirEntryOf ''proj''
          [dirEntryOf ''node_modules''
             [fileEntry ''a.js'' 100,
              dirEntryOf ''pkg''
                [dirEntryOf ''node_modules'' [fileEntry ''b.js'' 10],
                 dirEntryOf ''target'' [fileEntry ''debug'' 5]]]]]"

definition nestedOpts :: ScanOptions where
  "nestedOpts = scenarioOpts\<lparr>RootHandle := Some (treeFS nestedTree)\<rparr>"

definition rowNested :: rowData where
  "rowNested = \<lparr>RelPath = ''proj/node_modules'', Target = ''node_modules'',
     Category = ''node'', SizeBytes = 115, Marked = False, Deleted = False, DeleteErr = []\<rparr>"

section \<open>Properties of PathGuard\<close>

lemma splitOn_nonempty: "splitOn c xs \<noteq> []"
  by (induction xs) (auto split: list.splits)

lemma splitOn_no_sep: "e \<in> set (splitOn c xs) \<Longrightarrow> c \<notin> set e"
proof (induction xs arbitrary: e)
  case Nil
  then show ?case by simp
next
  case (Cons x xs)
  show ?case
  proof (cases "x = c")
    case True
    with Cons show ?thesis by auto
  next
    case False
    obtain w ws where sp: "splitOn c xs = w # ws"
      using splitOn_nonempty [of c xs] by (cases "splitOn c xs") auto
    with Cons False show ?thesis by auto
  qed
qed

lemma cleanElems_elems:
  "\<forall>e \<in> set out. e \<noteq> [] \<and> PathSeparator \<notin> set e \<Longrightarrow>
   \<forall>e \<in> set es. PathSeparator \<notin> set e \<Longrightarrow>
   \<forall>e \<in> set (cleanElems rooted out es). e \<noteq> [] \<and> PathSeparator \<notin> set e"
proof (induction es arbitrary: out)
  case Nil
  then show ?case by simp
next
  case (Cons e es)
  have es: "\<forall>e \<in> set es. PathSeparator \<notin> set e"
    using Cons.prems(2) by simp
  have e: "PathSeparator \<notin> set e"
    using Cons.prems(2) by simp
  have bl: "\<forall>e \<in> set (butlast out). e \<noteq> [] \<and> PathSeparator \<notin> set e"
    using Cons.prems(1) by (meson in_set_butlastD)
  have dd: "\<forall>e \<in> set (out @ [''..'']). e \<noteq> [] \<and> PathSeparator \<notin> set e"
    using Cons.prems(1) by (simp add: PathSeparator_def)
  have ee: "e \<noteq> [] \<Longrightarrow> \<forall>x \<in> set (out @ [e]). x \<noteq> [] \<and> PathSeparator \<notin> set x"
    using Cons.prems(1) e by simp
  show ?case
    using Cons.IH [OF Cons.prems(1) es] Cons.IH [OF bl es] Cons.IH [OF dd es]
      Cons.IH [OF ee es]
    by (simp del: set_append)
qed

lemma hd_joinSep:
  "es \<noteq> [] \<Longrightarrow> \<forall>e \<in> set es. e \<noteq> [] \<Longrightarrow> joinSep es \<noteq> [] \<and> hd (joinSep es) = hd (hd es)"
  by (induction es rule: joinSep.induct) auto

lemma joinSep_empty: "\<forall>e \<in> set es. e \<noteq> [] \<Longrightarrow> joinSep es = [] \<Longrightarrow> es = []"
  using hd_joinSep by blast

lemma IsAbs_Clean: "IsAbs (Clean path) = IsAbs path"
proof (cases "path = []")
  case True
  then show ?thesis by (simp add: Clean_def IsAbs_def PathSeparator_def)
next
  case False
  show ?thesis
  proof (cases "hd path = PathSeparator")
    case True
    with False show ?thesis by (simp add: Clean_def IsAbs_def Let_def)
  next
    case rel: False
    let ?es = "cleanElems False [] (splitOn PathSeparator path)"
    have el: "\<forall>e \<in> set ?es. e \<noteq> [] \<and> PathSeparator \<notin> set e"
      by (rule cleanElems_elems) (auto dest: splitOn_no_sep)
    have "\<not> IsAbs (joinSep ?es)"
    proof (cases "?es = []")
      case True
      then show ?thesis by (simp add: IsAbs_def)
    next
      case ne: False
      then have "hd ?es \<in> set ?es" by simp
      with el have "hd ?es \<noteq> [] \<and> PathSeparator \<notin> set (hd ?es)" by blast
      then have "hd (hd ?es) \<noteq> PathSeparator"
        by (cases "hd ?es") auto
      with hd_joinSep [OF ne] el show ?thesis by (simp add: IsAbs_def)
    qed
    moreover have "\<not> IsAbs ''.''" by (simp add: IsAbs_def PathSeparator_def)
    moreover have "\<not> IsAbs path" using rel by (simp add: IsAbs_def)
    ultimately show ?thesis
      using False rel by (simp add: Clean_def Let_def)
  qed
qed

lemma Clean_nonempty: "Clean p \<noteq> []"
  by (simp add: Clean_def Let_def)

lemma validateDeletePath_fails_iff:
  "(\<exists>e. validateDeletePath p = Inl e) =
   (p = [] \<or> Clean p = ''.'' \<or> Clean p = [PathSeparator] \<or> IsAbs p)"
  by (auto simp: validateDeletePath_def Let_def IsAbs_Clean)

lemma validateDeletePath_cases:
  "validateDeletePath p = Inr (Clean p) \<or> (\<exists>msg. validateDeletePath p = Inl (Errorf msg))"
  by (simp add: validateDeletePath_def Let_def)

lemma validateDeletePath_Inr:
  "validateDeletePath p = Inr c \<Longrightarrow> c = Clean p \<and> \<not> IsAbs c \<and> c \<noteq> ''.'' \<and> c \<noteq> []"
  using Clean_nonempty [of p]
  by (auto simp: validateDeletePath_def Let_def split: if_splits)

lemma deleteCmd_invalid:
  "validateDeletePath p = Inl e \<Longrightarrow>
   deleteCmd RemoveAll root p fs = (\<lparr>Path = p, Err = Some e\<rparr>, fs, [])"
  by (simp add: deleteCmd_def)

text \<open>
  C1. PathGuard returns the cleaned path or fails with an error of its own; it fails
  exactly when the path is empty, or cleaning it gives \<open>.\<close> or the separator, or the
  path is absolute; the path it returns is the cleaned one and is relative. When it
  fails inside the delete command, the result is a failure for the path as it was
  given, the filesystem is the one before, and \<open>RemoveAll\<close> was not called.
\<close>

theorem validateDeletePath_guard:
  "(validateDeletePath p = Inr (Clean p) \<or> (\<exists>msg. validateDeletePath p = Inl (Errorf msg)))
   \<and> ((\<exists>e. validateDeletePath p = Inl e) =
        (p = [] \<or> Clean p = ''.'' \<or> Clean p = [PathSeparator] \<or> IsAbs p))
   \<and> (\<forall>c. validateDeletePath p = Inr c \<longrightarrow> c = Clean p \<and> \<not> IsAbs c \<and> c \<noteq> ''.'' \<and> c \<noteq> [])
   \<and> (\<forall>e. validateDeletePath p = Inl e \<longrightarrow>
          deleteCmd RemoveAll root p fs = (\<lparr>Path = p, Err = Some e\<rparr>, fs, []))"
  using validateDeletePath_cases [of p] validateDeletePath_fails_iff [of p]
    validateDeletePath_Inr [of p] deleteCmd_invalid [of p _ RemoveAll root fs]
  by blast

lemma Clean_etc: "Clean ''/etc'' = ''/etc''"
  by (simp add: Clean_def PathSeparator_def)

lemma Clean_messy: "Clean ''a//b/./c/../d'' = ''a/b/d''"
  by (simp add: Clean_def PathSeparator_def)

theorem validateDeletePath_guard_witness:
  "validateDeletePath ''/etc'' = Inl (Errorf ''delete: absolute paths are not allowed'')
   \<and> IsAbs ''/etc''
   \<and> deleteCmd (\<lambda>h p fs. (None, removeAll p fs)) (Some ()) ''/etc'' [''etc'', ''tmp''] =
       (\<lparr>Path = ''/etc'', Err = Some (Errorf ''delete: absolute paths are not allowed'')\<rparr>,
        [''etc'', ''tmp''], [])
   \<and> validateDeletePath ''a//b/./c/../d'' = Inr ''a/b/d''
   \<and> \<not> IsAbs ''a/b/d''"
proof -
  have v: "validateDeletePath ''/etc'' = Inl (Errorf ''delete: absolute paths are not allowed'')"
    by (simp add: validateDeletePath_def Clean_etc IsAbs_def PathSeparator_def)
  have w: "validateDeletePath ''a//b/./c/../d'' = Inr ''a/b/d''"
    by (simp add: validateDeletePath_def Clean_messy IsAbs_def PathSeparator_def)
  have abs: "IsAbs ''/etc''"
    by (simp add: IsAbs_def PathSeparator_def)
  have d: "deleteCmd (\<lambda>h p fs. (None, removeAll p fs)) (Some ()) ''/etc'' [''etc'', ''tmp''] =
       (\<lparr>Path = ''/etc'', Err = Some (Errorf ''delete: absolute paths are not allowed'')\<rparr>,
        [''etc'', ''tmp''], [])"
    using validateDeletePath_guard [of "''/etc''" "\<lambda>h p fs. (None, removeAll p fs)" "Some ()" "[''etc'', ''tmp'']"] v
    by blast
  have r: "\<not> IsAbs ''a/b/d''"
    using validateDeletePath_guard [of "''a//b/./c/../d''" "\<lambda>h p fs. (None, removeAll p fs)" "Some ()" "[''etc'', ''tmp'']"] w
    by blast
  from v w abs d r show ?thesis by blast
qed

section \<open>Properties of the row order\<close>

lemma sint_eq_iff: "(sint a = sint b) = (a = (b :: 'a::len word))"
  by (auto intro: signed_word_eqI)

lemma rowLess_key: "rowLess lower mode l r = (rowKey lower mode l < rowKey lower mode r)"
  by (cases mode)
    (auto simp: rowLess_def rowKey_def less_prod_def less_bool_def le_bool_def sint_eq_iff
       order.strict_iff_order)

lemma insertStable_insort:
  "(\<And>a b. lt a b = (f a < f b)) \<Longrightarrow> insertStable lt x ys = insort_key f x ys"
  by (induction ys) (auto simp: not_less)

lemma SliceStable_sort_key:
  "(\<And>a b. lt a b = (f a < f b)) \<Longrightarrow> SliceStable lt xs = sort_key f xs"
  by (induction xs) (simp_all add: SliceStable_def sort_key_def insertStable_insort)

lemma sortRowsBy_sort_key: "sortRowsBy lower mode rows = sort_key (rowKey lower mode) rows"
  unfolding sortRowsBy_def by (rule SliceStable_sort_key) (rule rowLess_key)

lemma sortRowsBy_sorted: "sorted (map (rowKey lower mode) (sortRowsBy lower mode rows))"
  by (simp add: sortRowsBy_sort_key)

lemma sortRowsBy_idem:
  "sortRowsBy lower mode (sortRowsBy lower mode rows) = sortRowsBy lower mode rows"
  using sortRowsBy_sorted [of lower mode rows]
  by (simp add: sortRowsBy_sort_key sort_key_id_if_sorted)

lemma sortRowsBy_mset: "mset (sortRowsBy lower mode rows) = mset rows"
  by (simp add: sortRowsBy_sort_key)

lemma rowLess_equiv:
  "(\<not> rowLess lower mode r x \<and> \<not> rowLess lower mode x r) = (rowKey lower mode r = rowKey lower mode x)"
  by (auto simp: rowLess_key)

lemma sortRowsBy_stable:
  "filter (\<lambda>r. \<not> rowLess lower mode r x \<and> \<not> rowLess lower mode x r) (sortRowsBy lower mode rows) =
   filter (\<lambda>r. \<not> rowLess lower mode r x \<and> \<not> rowLess lower mode x r) rows"
  by (simp add: rowLess_equiv sortRowsBy_sort_key sort_key_stable)

lemma sortRowsBy_sorted_wrt:
  "sorted_wrt (\<lambda>a b. \<not> rowLess lower mode b a) (sortRowsBy lower mode rows)"
  using sortRowsBy_sorted [of lower mode rows]
  by (simp add: sorted_map rowLess_key not_less)

lemma sortRowsBy_nth_key:
  assumes "i < j" "j < length rows"
  shows "rowKey lower mode (sortRowsBy lower mode rows ! i) \<le> rowKey lower mode (sortRowsBy lower mode rows ! j)"
proof -
  let ?s = "sortRowsBy lower mode rows"
  have len: "length ?s = length rows" by (simp add: sortRowsBy_sort_key)
  have "map (rowKey lower mode) ?s ! i \<le> map (rowKey lower mode) ?s ! j"
    using sortRowsBy_sorted [of lower mode rows] assms len
    by (intro sorted_nth_mono) simp_all
  with assms len show ?thesis by simp
qed

lemma sortRowsBy_deleted_last:
  assumes "i < j" "j < length rows" "Deleted (sortRowsBy lower mode rows ! i)"
  shows "Deleted (sortRowsBy lower mode rows ! j)"
  using sortRowsBy_nth_key [OF assms(1,2), of lower mode] assms(3)
  by (auto simp: rowKey_def less_eq_prod_def less_bool_def le_bool_def)

lemma sortRowsBy_ties:
  assumes "i < j" "j < length rows"
    and "Deleted (sortRowsBy lower mode rows ! i) = Deleted (sortRowsBy lower mode rows ! j)"
    and "SizeBytes (sortRowsBy lower mode rows ! i) = SizeBytes (sortRowsBy lower mode rows ! j)"
  shows "lower (RelPath (sortRowsBy lower mode rows ! i)) \<le> lower (RelPath (sortRowsBy lower mode rows ! j))"
  using sortRowsBy_nth_key [OF assms(1,2), of lower mode] assms(3,4)
  by (cases mode) (auto simp: rowKey_def less_eq_prod_def)

text \<open>
  C8. For every row list, sort mode and lowering function: sorting again in the same
  mode changes nothing; the sorted list has the rows of the given one; rows that the
  comparison does not tell apart keep their order (stability); no row is less than one
  before it; a deleted row is followed by deleted rows only; of two rows of equal
  deletion state and equal size the earlier has the smaller or equal lowered path; and
  the mode steps from size-descending to size-ascending to name-ascending and back.
\<close>

theorem sortRows_stable_idempotent:
  "sortRowsBy lower mode (sortRowsBy lower mode rows) = sortRowsBy lower mode rows
   \<and> mset (sortRowsBy lower mode rows) = mset rows
   \<and> (\<forall>x. filter (\<lambda>r. \<not> rowLess lower mode r x \<and> \<not> rowLess lower mode x r)
              (sortRowsBy lower mode rows) =
            filter (\<lambda>r. \<not> rowLess lower mode r x \<and> \<not> rowLess lower mode x r) rows)
   \<and> sorted_wrt (\<lambda>a b. \<not> rowLess lower mode b a) (sortRowsBy lower mode rows)
   \<and> (\<forall>i j. i < j \<and> j < length rows \<and> Deleted (sortRowsBy lower mode rows ! i)
          \<longrightarrow> Deleted (sortRowsBy lower mode rows ! j))
   \<and> (\<forall>i j. i < j \<and> j < length rows
          \<and> Deleted (sortRowsBy lower mode rows ! i) = Deleted (sortRowsBy lower mode rows ! j)
          \<and> SizeBytes (sortRowsBy lower mode rows ! i) = SizeBytes (sortRowsBy lower mode rows ! j)
          \<longrightarrow> lower (RelPath (sortRowsBy lower mode rows ! i))
              \<le> lower (RelPath (sortRowsBy lower mode rows ! j)))
   \<and> nextSortMode sortBySizeDesc = sortBySizeAsc
   \<and> nextSortMode sortBySizeAsc = sortByNameAsc
   \<and> nextSortMode sortByNameAsc = sortBySizeDesc"
proof -
  have "\<forall>i j. i < j \<and> j < length rows \<and> Deleted (sortRowsBy lower mode rows ! i)
          \<longrightarrow> Deleted (sortRowsBy lower mode rows ! j)"
    using sortRowsBy_deleted_last by blast
  moreover have "\<forall>i j. i < j \<and> j < length rows
          \<and> Deleted (sortRowsBy lower mode rows ! i) = Deleted (sortRowsBy lower mode rows ! j)
          \<and> SizeBytes (sortRowsBy lower mode rows ! i) = SizeBytes (sortRowsBy lower mode rows ! j)
          \<longrightarrow> lower (RelPath (sortRowsBy lower mode rows ! i))
              \<le> lower (RelPath (sortRowsBy lower mode rows ! j))"
    using sortRowsBy_ties by blast
  ultimately show ?thesis
    using sortRowsBy_idem [of lower mode rows] sortRowsBy_mset [of lower mode rows]
      sortRowsBy_stable [of lower mode _ rows] sortRowsBy_sorted_wrt [of lower mode rows]
    by simp
qed

lemma sortRowsBy_example:
  "sortRowsBy ToLower sortBySizeDesc [rowDist, rowNodeModules, rowTarget, rowBuild] =
   [rowTarget, rowBuild, rowNodeModules, rowDist]"
  by code_simp

theorem sortRows_stable_idempotent_witness:
  "sortRowsBy ToLower sortBySizeDesc [rowDist, rowNodeModules, rowTarget, rowBuild] =
     [rowTarget, rowBuild, rowNodeModules, rowDist]
   \<and> sortRowsBy ToLower sortBySizeDesc [rowTarget, rowBuild, rowNodeModules, rowDist] =
     [rowTarget, rowBuild, rowNodeModules, rowDist]
   \<and> SizeBytes rowBuild = SizeBytes rowNodeModules
   \<and> ToLower (RelPath rowBuild) \<le> ToLower (RelPath rowNodeModules)
   \<and> Deleted rowDist"
proof -
  let ?rows = "[rowDist, rowNodeModules, rowTarget, rowBuild]"
  note inst = sortRows_stable_idempotent [of ToLower sortBySizeDesc ?rows]
  have idem: "sortRowsBy ToLower sortBySizeDesc [rowTarget, rowBuild, rowNodeModules, rowDist] =
     [rowTarget, rowBuild, rowNodeModules, rowDist]"
    using inst by (simp add: sortRowsBy_example)
  have eq: "SizeBytes rowBuild = SizeBytes rowNodeModules" "Deleted rowBuild = Deleted rowNodeModules"
    by (simp_all add: rowBuild_def rowNodeModules_def)
  have "(1::nat) < 2 \<and> (2::nat) < length ?rows
      \<and> Deleted (sortRowsBy ToLower sortBySizeDesc ?rows ! 1) = Deleted (sortRowsBy ToLower sortBySizeDesc ?rows ! 2)
      \<and> SizeBytes (sortRowsBy ToLower sortBySizeDesc ?rows ! 1) = SizeBytes (sortRowsBy ToLower sortBySizeDesc ?rows ! 2)"
    using eq by (simp add: sortRowsBy_example)
  with inst have "ToLower (RelPath (sortRowsBy ToLower sortBySizeDesc ?rows ! 1))
      \<le> ToLower (RelPath (sortRowsBy ToLower sortBySizeDesc ?rows ! 2))"
    by blast
  then have tie: "ToLower (RelPath rowBuild) \<le> ToLower (RelPath rowNodeModules)"
    by (simp add: sortRowsBy_example)
  have del: "Deleted rowDist" by (simp add: rowDist_def)
  from sortRowsBy_example idem eq(1) tie del show ?thesis by blast
qed

section \<open>Properties of walks\<close>

subsection \<open>Invariants and origins of a walk\<close>

lemma walkDirs_invariant:
  assumes kids: "\<forall>t \<in> set ts. \<forall>name s r s'. I s \<longrightarrow> walkDir fn name t s = (r, s') \<longrightarrow> I s'"
    and "I s" and "walkDirs fn name ts s = (r, s')"
  shows "I s'"
  using assms
proof (induction ts arbitrary: s)
  case Nil
  then show ?case by simp
next
  case (Cons t ts)
  obtain r1 s1 where w: "walkDir fn (pathJoin name (EntryName (entry t))) t s = (r1, s1)"
    by (cases "walkDir fn (pathJoin name (EntryName (entry t))) t s")
  have "t \<in> set (t # ts)" by simp
  with Cons.prems(1)
  have hd: "\<forall>name s r s'. I s \<longrightarrow> walkDir fn name t s = (r, s') \<longrightarrow> I s'"
    by (rule bspec)
  have I1: "I s1"
    using hd Cons.prems(2) w by blast
  have rest: "\<forall>t \<in> set ts. \<forall>name s r s'. I s \<longrightarrow> walkDir fn name t s = (r, s') \<longrightarrow> I s'"
  proof
    fix k
    assume "k \<in> set ts"
    then have "k \<in> set (t # ts)" by simp
    with Cons.prems(1) show "\<forall>name s r s'. I s \<longrightarrow> walkDir fn name k s = (r, s') \<longrightarrow> I s'"
      by (rule bspec)
  qed
  show ?case
  proof (cases r1)
    case None
    with w Cons.prems(3) have "walkDirs fn name ts s1 = (r, s')" by simp
    from Cons.IH [OF rest I1 this] show ?thesis .
  next
    case (Some e)
    with w Cons.prems(3) have "s' = s1" by (auto split: if_splits)
    with I1 show ?thesis by simp
  qed
qed

lemma walkDir_invariant:
  assumes step: "\<And>path ent err s r s'. I s \<Longrightarrow> fn path ent err s = (r, s') \<Longrightarrow> I s'"
  shows "I s \<Longrightarrow> walkDir fn name t s = (r, s') \<Longrightarrow> I s'"
proof (induction t arbitrary: name s r s')
  case (Node d rerr dirs)
  obtain r1 s1 where f1: "fn name (Some d) None s = (r1, s1)"
    by (cases "fn name (Some d) None s")
  have I1: "I s1" using step [OF Node.prems(1) f1] .
  have kids: "\<forall>t \<in> set dirs. \<forall>name s r s'. I s \<longrightarrow> walkDir fn name t s = (r, s') \<longrightarrow> I s'"
    using Node.IH by blast
  show ?case
  proof (cases "r1 = None \<and> EntryIsDir d")
    case False
    with f1 Node.prems(2) have "s' = s1" by (auto split: if_splits option.splits)
    with I1 show ?thesis by simp
  next
    case True
    show ?thesis
    proof (cases rerr)
      case None
      with True f1 Node.prems(2) have "walkDirs fn name dirs s1 = (r, s')" by simp
      from walkDirs_invariant [OF kids I1 this] show ?thesis .
    next
      case (Some e)
      obtain r2 s2 where f2: "fn name (Some d) (Some (asError e)) s1 = (r2, s2)"
        by (cases "fn name (Some d) (Some (asError e)) s1")
      have I2: "I s2" using step [OF I1 f2] .
      show ?thesis
      proof (cases r2)
        case None
        with True f1 f2 Some Node.prems(2) have "walkDirs fn name dirs s2 = (r, s')" by simp
        from walkDirs_invariant [OF kids I2 this] show ?thesis .
      next
        case (Some e2)
        with True f1 f2 \<open>rerr = Some e\<close> Node.prems(2) have "s' = s2" by (auto split: if_splits)
        with I2 show ?thesis by simp
      qed
    qed
  qed
qed

lemma WalkDir_invariant:
  assumes step: "\<And>path ent err s r s'. I s \<Longrightarrow> fn path ent err s = (r, s') \<Longrightarrow> I s'"
  shows "I s \<Longrightarrow> WalkDir fn fsys root s = (r, s') \<Longrightarrow> I s'"
proof -
  assume I: "I s" and w: "WalkDir fn fsys root s = (r, s')"
  show "I s'"
  proof (cases "fsys root")
    case (Inl e)
    obtain r1 s1 where f: "fn root None (Some (asError e)) s = (r1, s1)"
      by (cases "fn root None (Some (asError e)) s")
    with Inl w have "s' = s1" by (auto simp: WalkDir_def split: if_splits)
    with step [OF I f] show ?thesis by simp
  next
    case (Inr t)
    obtain r1 s1 where f: "walkDir fn root t s = (r1, s1)"
      by (cases "walkDir fn root t s")
    with Inr w have "s' = s1" by (auto simp: WalkDir_def split: if_splits)
    with walkDir_invariant [of I fn, OF step I f] show ?thesis by simp
  qed
qed

lemma fromCallI:
  "fn path ent (map_option asError err) s0 = (r0, s') \<Longrightarrow>
   r = r0 \<or> (r = None \<and> (r0 = Some SkipDir \<or> r0 = Some SkipAll))
   \<Longrightarrow> fromCall fn r s'"
  unfolding fromCall_def by blast

lemma fromCall_None:
  "fn path ent None s0 = (r0, s') \<Longrightarrow>
   r = r0 \<or> (r = None \<and> (r0 = Some SkipDir \<or> r0 = Some SkipAll))
   \<Longrightarrow> fromCall fn r s'"
  using fromCallI [of fn path ent None] by simp

lemma fromCall_Some:
  "fn path ent (Some (asError e)) s0 = (r0, s') \<Longrightarrow>
   r = r0 \<or> (r = None \<and> (r0 = Some SkipDir \<or> r0 = Some SkipAll))
   \<Longrightarrow> fromCall fn r s'"
  using fromCallI [of fn path ent "Some e"] by simp

lemma fromCall_skip: "fromCall fn (Some SkipDir) s' \<Longrightarrow> fromCall fn None s'"
  unfolding fromCall_def by blast

lemma walkDirs_origin:
  assumes kids: "\<forall>t \<in> set ts. \<forall>name s r s'. walkDir fn name t s = (r, s') \<longrightarrow> fromCall fn r s'"
    and "walkDirs fn name ts s = (r, s')"
  shows "(r = None \<and> s' = s) \<or> fromCall fn r s'"
  using assms
proof (induction ts arbitrary: s)
  case Nil
  then show ?case by simp
next
  case (Cons t ts)
  obtain r1 s1 where w: "walkDir fn (pathJoin name (EntryName (entry t))) t s = (r1, s1)"
    by (cases "walkDir fn (pathJoin name (EntryName (entry t))) t s")
  have "t \<in> set (t # ts)" by simp
  with Cons.prems(1)
  have hd: "\<forall>name s r s'. walkDir fn name t s = (r, s') \<longrightarrow> fromCall fn r s'"
    by (rule bspec)
  have o1: "fromCall fn r1 s1"
    using hd w by blast
  have rest: "\<forall>t \<in> set ts. \<forall>name s r s'. walkDir fn name t s = (r, s') \<longrightarrow> fromCall fn r s'"
  proof
    fix k
    assume "k \<in> set ts"
    then have "k \<in> set (t # ts)" by simp
    with Cons.prems(1) show "\<forall>name s r s'. walkDir fn name k s = (r, s') \<longrightarrow> fromCall fn r s'"
      by (rule bspec)
  qed
  show ?case
  proof (cases r1)
    case None
    with w Cons.prems(2) have "walkDirs fn name ts s1 = (r, s')" by simp
    from Cons.IH [OF rest this] o1 None show ?thesis by blast
  next
    case (Some e)
    show ?thesis
    proof (cases "e = SkipDir")
      case True
      with Some w Cons.prems(2) have "r = None" "s' = s1" by simp_all
      with o1 Some True show ?thesis by (simp add: fromCall_skip)
    next
      case False
      with Some w Cons.prems(2) have "r = r1" "s' = s1" by simp_all
      with o1 show ?thesis by simp
    qed
  qed
qed

lemma walkDir_origin: "walkDir fn name t s = (r, s') \<Longrightarrow> fromCall fn r s'"
proof (induction t arbitrary: name s r s')
  case (Node d rerr dirs)
  obtain r1 s1 where f1: "fn name (Some d) None s = (r1, s1)"
    by (cases "fn name (Some d) None s")
  have kids: "\<forall>t \<in> set dirs. \<forall>name s r s'. walkDir fn name t s = (r, s') \<longrightarrow> fromCall fn r s'"
    using Node.IH by blast
  show ?case
  proof (cases r1)
    case (Some e)
    show ?thesis
    proof (cases "e = SkipDir \<and> EntryIsDir d")
      case True
      with Some f1 Node.prems have "r = None" "s' = s1" by simp_all
      with f1 Some True show ?thesis by (auto intro: fromCall_None fromCall_Some)
    next
      case False
      with Some f1 Node.prems have "r = r1" "s' = s1" by auto
      with f1 show ?thesis by (auto intro: fromCall_None fromCall_Some)
    qed
  next
    case None
    note r1 = None
    show ?thesis
    proof (cases "EntryIsDir d")
      case False
      with r1 f1 Node.prems have "r = r1" "s' = s1" by simp_all
      with f1 show ?thesis by (auto intro: fromCall_None fromCall_Some)
    next
      case True
      show ?thesis
      proof (cases rerr)
        case None
        with True r1 f1 Node.prems have "walkDirs fn name dirs s1 = (r, s')" by simp
        from walkDirs_origin [OF kids this] f1 r1 show ?thesis
          by (auto intro: fromCall_None fromCall_Some)
      next
        case (Some e)
        obtain r2 s2 where f2: "fn name (Some d) (Some (asError e)) s1 = (r2, s2)"
          by (cases "fn name (Some d) (Some (asError e)) s1")
        show ?thesis
        proof (cases r2)
          case None
          with True r1 f1 f2 Some Node.prems have "walkDirs fn name dirs s2 = (r, s')" by simp
          from walkDirs_origin [OF kids this] f2 None show ?thesis
            by (auto intro: fromCall_None fromCall_Some)
        next
          case e2: (Some e2)
          show ?thesis
          proof (cases "e2 = SkipDir")
            case skip: True
            with e2 True r1 f1 f2 Some Node.prems have "r = None" "s' = s2" by simp_all
            with f2 e2 skip show ?thesis by (auto intro: fromCall_None fromCall_Some)
          next
            case False
            with e2 True r1 f1 f2 Some Node.prems have "r = r2" "s' = s2" by simp_all
            with f2 show ?thesis by (auto intro: fromCall_None fromCall_Some)
          qed
        qed
      qed
    qed
  qed
qed

lemma WalkDir_origin: "WalkDir fn fsys root s = (r, s') \<Longrightarrow> fromCall fn r s'"
proof -
  assume w: "WalkDir fn fsys root s = (r, s')"
  show ?thesis
  proof (cases "fsys root")
    case (Inl e)
    obtain r1 s1 where f: "fn root None (Some (asError e)) s = (r1, s1)"
      by (cases "fn root None (Some (asError e)) s")
    with Inl w have "s' = s1" "r = r1 \<or> (r = None \<and> (r1 = Some SkipDir \<or> r1 = Some SkipAll))"
      by (auto simp: WalkDir_def split: if_splits)
    with f show ?thesis by (auto intro: fromCall_None fromCall_Some)
  next
    case (Inr t)
    obtain r1 s1 where f: "walkDir fn root t s = (r1, s1)"
      by (cases "walkDir fn root t s")
    with Inr w have e: "s' = s1" "r = r1 \<or> (r = None \<and> (r1 = Some SkipDir \<or> r1 = Some SkipAll))"
      by (auto simp: WalkDir_def split: if_splits)
    from walkDir_origin [OF f] have "fromCall fn r1 s1" .
    with e show ?thesis unfolding fromCall_def by blast
  qed
qed

subsection \<open>The size accumulator\<close>

lemma asError_neq [simp]:
  "asError e \<noteq> SkipDir" "asError e \<noteq> SkipAll" "asError e \<noteq> Canceled"
  by (cases e; simp)+

lemma asError_perm [simp]: "(asError e = ErrPermission) = (e = PermissionDenied)"
  by (cases e) simp_all

lemma ctxErr_Cancelled: "ctxErr c = (b, c') \<Longrightarrow> b = (c' = Cancelled)"
  by (cases c rule: ctxErr.cases) auto

lemma ctxErr_Background [simp]: "ctxErr c = (b, Background) \<Longrightarrow> c = Background"
  by (cases c rule: ctxErr.cases) auto

lemma walkDirs_size:
  assumes "\<forall>t \<in> set ts. sizeOk t"
    and "walkDirs dirSizeFn name ts (ctx, acc) = (r, (ctx', acc'))"
  shows "r \<noteq> Some SkipDir \<and> r \<noteq> Some SkipAll \<and> (r = None \<longrightarrow> acc' = acc + sum_list (map entriesTotal ts))"
  using assms
proof (induction ts arbitrary: ctx acc)
  case Nil
  then show ?case by simp
next
  case (Cons t ts)
  obtain r1 c1 a1 where w: "walkDir dirSizeFn (pathJoin name (EntryName (entry t))) t (ctx, acc) = (r1, (c1, a1))"
    by (metis prod.exhaust)
  have "sizeOk t" using Cons.prems(1) by simp
  then have ok: "r1 \<noteq> Some SkipDir \<and> r1 \<noteq> Some SkipAll \<and> (r1 = None \<longrightarrow> a1 = acc + entriesTotal t)"
    using w unfolding sizeOk_def by blast
  have rest: "\<forall>t \<in> set ts. sizeOk t" using Cons.prems(1) by simp
  show ?case
  proof (cases r1)
    case None
    with w Cons.prems(2) have "walkDirs dirSizeFn name ts (c1, a1) = (r, (ctx', acc'))"
      by simp
    from Cons.IH [OF rest this] ok None show ?thesis
      by (simp add: add.assoc)
  next
    case (Some e)
    with ok have "e \<noteq> SkipDir" by simp
    with Some w Cons.prems(2) have "r = r1" by simp
    with ok Some show ?thesis by simp
  qed
qed

lemma dirSizeFn_visit_dir:
  "ctxErr ctx = (False, c) \<Longrightarrow> EntryIsDir d \<Longrightarrow> \<not> EntrySymlink d \<Longrightarrow>
   dirSizeFn name (Some d) None (ctx, acc) = (None, (c, acc))"
  by (simp add: dirSizeFn_def)

lemma dirSizeFn_error:
  "ctxErr ctx = (False, c) \<Longrightarrow> dirSizeFn name ent (Some e) (ctx, acc) = (Some e, (c, acc))"
  by (simp add: dirSizeFn_def)

lemma dirSizeFn_cancelled:
  "ctxErr ctx = (True, c) \<Longrightarrow> dirSizeFn name ent err (ctx, acc) = (Some Canceled, (c, acc))"
  by (simp add: dirSizeFn_def)

lemma walkDir_size: "sizeOk t"
proof (induction t)
  case (Node d rerr dirs)
  have kids: "\<forall>t \<in> set dirs. sizeOk t"
    using Node.IH by blast
  show ?case
    unfolding sizeOk_def
  proof (intro allI impI)
    fix name ctx acc r ctx' acc'
    assume w: "walkDir dirSizeFn name (Node d rerr dirs) (ctx, acc) = (r, (ctx', acc'))"
    obtain b c where p: "ctxErr ctx = (b, c)" by (cases "ctxErr ctx")
    show "r \<noteq> Some SkipDir \<and> r \<noteq> Some SkipAll \<and> (r = None \<longrightarrow> acc' = acc + entriesTotal (Node d rerr dirs))"
    proof (cases b)
      case True
      with p w show ?thesis by (auto simp: dirSizeFn_cancelled)
    next
      case False
      with p have live: "ctxErr ctx = (False, c)" by simp
      show ?thesis
      proof (cases "EntryIsDir d")
        case notdir: False
        with live w show ?thesis
          by (auto simp: dirSizeFn_def split: sum.splits)
      next
        case isdir: True
        show ?thesis
        proof (cases "EntrySymlink d")
          case True
          with live isdir w show ?thesis by (auto simp: dirSizeFn_def)
        next
          case nolink: False
          note first = dirSizeFn_visit_dir [OF live isdir nolink, of name acc]
          show ?thesis
          proof (cases rerr)
            case None
            with first isdir w have "walkDirs dirSizeFn name dirs (c, acc) = (r, (ctx', acc'))"
              by simp
            from walkDirs_size [OF kids this] isdir nolink show ?thesis by simp
          next
            case (Some e)
            obtain b2 c2 where p2: "ctxErr c = (b2, c2)" by (cases "ctxErr c")
            show ?thesis
            proof (cases b2)
              case True
              with p2 first isdir w Some show ?thesis
                by (auto simp: dirSizeFn_cancelled)
            next
              case False
              with p2 first isdir w Some show ?thesis
                by (auto simp: dirSizeFn_error)
            qed
          qed
        qed
      qed
    qed
  qed
qed

lemma walkDirs_readable:
  assumes "\<forall>t \<in> set ts. \<forall>name acc. readable t \<longrightarrow>
             walkDir dirSizeFn name t (Background, acc) = (None, (Background, acc + entriesTotal t))"
    and "list_all readable ts"
  shows "walkDirs dirSizeFn name ts (Background, acc) =
         (None, (Background, acc + sum_list (map entriesTotal ts)))"
  using assms
proof (induction ts arbitrary: acc)
  case Nil
  then show ?case by simp
next
  case (Cons t ts)
  have "t \<in> set (t # ts)" by simp
  with Cons.prems(1)
  have "\<forall>name acc. readable t \<longrightarrow>
             walkDir dirSizeFn name t (Background, acc) = (None, (Background, acc + entriesTotal t))"
    by (rule bspec)
  moreover have "readable t" using Cons.prems(2) by simp
  ultimately have hd: "walkDir dirSizeFn (pathJoin name (EntryName (entry t))) t (Background, acc) =
      (None, (Background, acc + entriesTotal t))"
    by blast
  have rest: "\<forall>k \<in> set ts. \<forall>name acc. readable k \<longrightarrow>
             walkDir dirSizeFn name k (Background, acc) = (None, (Background, acc + entriesTotal k))"
  proof
    fix k
    assume "k \<in> set ts"
    then have "k \<in> set (t # ts)" by simp
    with Cons.prems(1) show "\<forall>name acc. readable k \<longrightarrow>
             walkDir dirSizeFn name k (Background, acc) = (None, (Background, acc + entriesTotal k))"
      by (rule bspec)
  qed
  have "list_all readable ts" using Cons.prems(2) by simp
  from Cons.IH [OF rest this, of "acc + entriesTotal t"] hd show ?case
    by (simp add: add.assoc)
qed

lemma walkDir_readable:
  "readable t \<Longrightarrow>
   walkDir dirSizeFn name t (Background, acc) = (None, (Background, acc + entriesTotal t))"
proof (induction t arbitrary: name acc)
  case (Node d rerr dirs)
  have kids: "\<forall>t \<in> set dirs. \<forall>name acc. readable t \<longrightarrow>
             walkDir dirSizeFn name t (Background, acc) = (None, (Background, acc + entriesTotal t))"
    using Node.IH by blast
  show ?case
  proof (cases "EntryIsDir d")
    case False
    with Node.prems show ?thesis
      by (auto simp: dirSizeFn_def split: sum.splits)
  next
    case isdir: True
    show ?thesis
    proof (cases "EntrySymlink d")
      case True
      with isdir show ?thesis by (simp add: dirSizeFn_def)
    next
      case False
      with isdir Node.prems have r: "rerr = None" "list_all readable dirs" by simp_all
      have first: "dirSizeFn name (Some d) None (Background, acc) = (None, (Background, acc))"
        using isdir False by (simp add: dirSizeFn_def)
      from walkDirs_readable [OF kids r(2), of name acc] first isdir False r(1)
      show ?thesis by simp
    qed
  qed
qed

lemma dirSizeFn_outcome:
  assumes "dirSizeFn path ent (map_option asError err) s0 = (r0, (c', a'))"
  shows "(r0 = Some Canceled) = (c' = Cancelled)" and "r0 \<noteq> Some SkipAll"
proof -
  obtain ctx acc where s0: "s0 = (ctx, acc)" by (cases s0)
  obtain b c where p: "ctxErr ctx = (b, c)" by (cases "ctxErr ctx")
  note bc = ctxErr_Cancelled [OF p]
  show "(r0 = Some Canceled) = (c' = Cancelled)"
    using assms s0 p bc
    by (cases err) (auto simp: dirSizeFn_def split: option.splits sum.splits if_splits)
  show "r0 \<noteq> Some SkipAll"
    using assms s0 p
    by (cases err) (auto simp: dirSizeFn_def split: option.splits sum.splits if_splits)
qed

lemma WalkDir_dirSizeFn_cancel:
  assumes "WalkDir dirSizeFn fsys root s = (r, (c', a'))"
  shows "(r = Some Canceled) = (c' = Cancelled)"
proof -
  from WalkDir_origin [OF assms] obtain path ent err s0 r0 where
    f: "dirSizeFn path ent (map_option asError err) s0 = (r0, (c', a'))"
    and r: "r = r0 \<or> (r = None \<and> (r0 = Some SkipDir \<or> r0 = Some SkipAll))"
    unfolding fromCall_def by blast
  from dirSizeFn_outcome(1) [OF f] r show ?thesis by auto
qed

lemma dirSize_cancel_iff:
  assumes "dirSize ctx root p = (x, c')" and "ctx \<noteq> Cancelled"
  shows "(x = Inl Canceled) = (c' = Cancelled)"
proof (cases root)
  case None
  with assms show ?thesis by (auto simp: dirSize_def)
next
  case (Some fsys)
  obtain r c1 a1 where w: "WalkDir dirSizeFn fsys p (ctx, 0) = (r, (c1, a1))"
    by (metis prod.exhaust)
  from WalkDir_dirSizeFn_cancel [OF w] w Some assms(1) show ?thesis
    by (cases r) (auto simp: dirSize_def)
qed

lemma dirSize_Cancelled:
  "dirSize ctx root p = (x, Cancelled) \<Longrightarrow> x = Inl Canceled \<or> ctx = Cancelled"
  using dirSize_cancel_iff by blast



lemma dirSize_total:
  assumes "fsys p = Inr t" and "dirSize ctx (Some fsys) p = (Inr n, c')"
  shows "n = entriesTotal t"
proof -
  obtain r c1 a1 where w: "walkDir dirSizeFn p t (ctx, 0) = (r, (c1, a1))"
    by (metis prod.exhaust)
  from walkDir_size [of t] w
  have ok: "r \<noteq> Some SkipDir \<and> r \<noteq> Some SkipAll \<and> (r = None \<longrightarrow> a1 = 0 + entriesTotal t)"
    unfolding sizeOk_def by blast
  from assms w ok show ?thesis
    by (cases r) (auto simp: dirSize_def WalkDir_def)
qed

lemma dirSize_readable:
  assumes "fsys p = Inr t" and "readable t"
  shows "dirSize Background (Some fsys) p = (Inr (entriesTotal t), Background)"
  using assms walkDir_readable [OF assms(2), of p 0]
  by (simp add: dirSize_def WalkDir_def)

lemma linkFree_totals: "linkFree t \<Longrightarrow> entriesTotal t = regularTotal t"
proof (induction t)
  case (Node d rerr dirs)
  show ?case
  proof (cases "EntryIsDir d \<and> \<not> EntrySymlink d")
    case True
    with Node.prems have "list_all linkFree dirs" by simp
    then have "map entriesTotal dirs = map regularTotal dirs"
      using Node.IH by (simp add: list_all_iff)
    then have "sum_list (map entriesTotal dirs) = sum_list (map regularTotal dirs)"
      by (rule arg_cong)
    with True show ?thesis by simp
  next
    case False
    with Node.prems show ?thesis by auto
  qed
qed

section \<open>Properties of the scan\<close>

subsection \<open>The callback of the scan\<close>

lemma sendProgress_fields [simp]:
  "sCtx (sendProgress sid force st) = sCtx st"
  "sWarnings (sendProgress sid force st) = sWarnings st"
  "sVisited (sendProgress sid force st) = sVisited st"
  "sFound (sendProgress sid force st) = sFound st"
  by (auto simp: sendProgress_def split: list.splits)

lemma visitState_fields [simp]:
  "sCtx (visitState sid c s0) = c"
  "sWarnings (visitState sid c s0) = sWarnings s0"
  "sVisited (visitState sid c s0) = sVisited s0 + 1"
  "sFound (visitState sid c s0) = sFound s0"
  by (simp_all add: visitState_def)

lemma scanFn_cancelled:
  "ctxErr (sCtx s0) = (True, c) \<Longrightarrow>
   scanFn opts sid path ent err s0 = (Some Canceled, s0\<lparr>sCtx := c\<rparr>)"
  by (simp add: scanFn_def)

lemma scanFn_permission:
  "ctxErr (sCtx s0) = (False, c) \<Longrightarrow>
   scanFn opts sid path ent (Some ErrPermission) s0 =
     (Some SkipDir, s0\<lparr>sCtx := c, sWarnings := sWarnings s0 @ [permissionWarning path]\<rparr>)"
  by (simp add: scanFn_def)

lemma scanFn_failure:
  "ctxErr (sCtx s0) = (False, c) \<Longrightarrow> e \<noteq> ErrPermission \<Longrightarrow>
   scanFn opts sid path ent (Some e) s0 = (Some e, s0\<lparr>sCtx := c\<rparr>)"
  by (simp add: scanFn_def)

lemma scanFn_nil:
  "ctxErr (sCtx s0) = (False, c) \<Longrightarrow>
   scanFn opts sid path None None s0 = (Some (Errorf ''nil DirEntry''), s0\<lparr>sCtx := c\<rparr>)"
  by (simp add: scanFn_def)

lemma scanFn_file:
  "ctxErr (sCtx s0) = (False, c) \<Longrightarrow> \<not> EntryIsDir d \<Longrightarrow>
   scanFn opts sid path (Some d) None s0 = (None, s0\<lparr>sCtx := c\<rparr>)"
  by (simp add: scanFn_def)

lemma scanFn_skipped:
  "ctxErr (sCtx s0) = (False, c) \<Longrightarrow> EntryIsDir d \<Longrightarrow> skipped opts path d \<Longrightarrow>
   scanFn opts sid path (Some d) None s0 = (Some SkipDir, visitState sid c s0)"
  by (auto simp: scanFn_def skipped_def visitState_def Let_def)

lemma scanFn_plain:
  "ctxErr (sCtx s0) = (False, c) \<Longrightarrow> EntryIsDir d \<Longrightarrow> \<not> skipped opts path d \<Longrightarrow>
   Targets opts (EntryName d) = None \<Longrightarrow>
   scanFn opts sid path (Some d) None s0 = (None, visitState sid c s0)"
  by (auto simp: scanFn_def skipped_def visitState_def Let_def)

lemma scanFn_size_permission:
  "ctxErr (sCtx s0) = (False, c) \<Longrightarrow> EntryIsDir d \<Longrightarrow> \<not> skipped opts path d \<Longrightarrow>
   Targets opts (EntryName d) = Some def \<Longrightarrow>
   dirSize c (RootHandle opts) path = (Inl ErrPermission, c2) \<Longrightarrow>
   scanFn opts sid path (Some d) None s0 =
     (Some SkipDir, (visitState sid c s0)\<lparr>sCtx := c2,
        sWarnings := sWarnings s0 @ [permissionWarning path]\<rparr>)"
  by (auto simp: scanFn_def skipped_def Let_def visitState_def)

lemma scanFn_size_failure:
  "ctxErr (sCtx s0) = (False, c) \<Longrightarrow> EntryIsDir d \<Longrightarrow> \<not> skipped opts path d \<Longrightarrow>
   Targets opts (EntryName d) = Some def \<Longrightarrow>
   dirSize c (RootHandle opts) path = (Inl e, c2) \<Longrightarrow> e \<noteq> ErrPermission \<Longrightarrow>
   scanFn opts sid path (Some d) None s0 = (Some e, (visitState sid c s0)\<lparr>sCtx := c2\<rparr>)"
  by (auto simp: scanFn_def skipped_def Let_def visitState_def)

lemma scanFn_match:
  "ctxErr (sCtx s0) = (False, c) \<Longrightarrow> EntryIsDir d \<Longrightarrow> \<not> skipped opts path d \<Longrightarrow>
   Targets opts (EntryName d) = Some def \<Longrightarrow>
   dirSize c (RootHandle opts) path = (Inr n, c2) \<Longrightarrow>
   scanFn opts sid path (Some d) None s0 =
     (Some SkipDir,
      sendProgress sid True
        ((visitState sid c s0)\<lparr>sCtx := c2, sFound := sFound s0 + 1,
           sOut := sOut (visitState sid c s0) @ [scanRowMsg sid (rowOf path def n)]\<rparr>))"
  by (auto simp: scanFn_def skipped_def Let_def rowOf_def visitState_def)

lemma scanFn_cases [consumes 1, case_names cancelled permission failure nil_entry not_dir skip plain
    size_permission size_failure matched]:
  assumes call: "scanFn opts sid path ent err s0 = (r0, s')"
  obtains
    c where "ctxErr (sCtx s0) = (True, c)" "r0 = Some Canceled" "s' = s0\<lparr>sCtx := c\<rparr>"
  | c where "ctxErr (sCtx s0) = (False, c)" "err = Some ErrPermission" "r0 = Some SkipDir"
      "s' = s0\<lparr>sCtx := c, sWarnings := sWarnings s0 @ [permissionWarning path]\<rparr>"
  | c e where "ctxErr (sCtx s0) = (False, c)" "err = Some e" "e \<noteq> ErrPermission" "r0 = Some e"
      "s' = s0\<lparr>sCtx := c\<rparr>"
  | c where "ctxErr (sCtx s0) = (False, c)" "err = None" "ent = None"
      "r0 = Some (Errorf ''nil DirEntry'')" "s' = s0\<lparr>sCtx := c\<rparr>"
  | c d where "ctxErr (sCtx s0) = (False, c)" "err = None" "ent = Some d" "\<not> EntryIsDir d"
      "r0 = None" "s' = s0\<lparr>sCtx := c\<rparr>"
  | c d where "ctxErr (sCtx s0) = (False, c)" "err = None" "ent = Some d" "EntryIsDir d"
      "skipped opts path d" "r0 = Some SkipDir" "s' = visitState sid c s0"
  | c d where "ctxErr (sCtx s0) = (False, c)" "err = None" "ent = Some d" "EntryIsDir d"
      "\<not> skipped opts path d" "Targets opts (EntryName d) = None"
      "r0 = None" "s' = visitState sid c s0"
  | c d def c2 where "ctxErr (sCtx s0) = (False, c)" "err = None" "ent = Some d" "EntryIsDir d"
      "\<not> skipped opts path d" "Targets opts (EntryName d) = Some def"
      "dirSize c (RootHandle opts) path = (Inl ErrPermission, c2)" "r0 = Some SkipDir"
      "s' = (visitState sid c s0)\<lparr>sCtx := c2,
              sWarnings := sWarnings s0 @ [permissionWarning path]\<rparr>"
  | c d def c2 e where "ctxErr (sCtx s0) = (False, c)" "err = None" "ent = Some d" "EntryIsDir d"
      "\<not> skipped opts path d" "Targets opts (EntryName d) = Some def"
      "dirSize c (RootHandle opts) path = (Inl e, c2)" "e \<noteq> ErrPermission" "r0 = Some e"
      "s' = (visitState sid c s0)\<lparr>sCtx := c2\<rparr>"
  | c d def c2 n where "ctxErr (sCtx s0) = (False, c)" "err = None" "ent = Some d" "EntryIsDir d"
      "\<not> skipped opts path d" "Targets opts (EntryName d) = Some def"
      "dirSize c (RootHandle opts) path = (Inr n, c2)" "r0 = Some SkipDir"
      "s' = sendProgress sid True
              ((visitState sid c s0)\<lparr>sCtx := c2, sFound := sFound s0 + 1,
                 sOut := sOut (visitState sid c s0) @ [scanRowMsg sid (rowOf path def n)]\<rparr>)"
proof -
  obtain b c where p: "ctxErr (sCtx s0) = (b, c)" by (cases "ctxErr (sCtx s0)")
  show thesis
  proof (cases b)
    case True
    with p call scanFn_cancelled [of s0 c opts sid path ent err] that(1) show thesis by simp
  next
    case False
    with p have live: "ctxErr (sCtx s0) = (False, c)" by simp
    show thesis
    proof (cases err)
      case (Some e)
      show thesis
      proof (cases "e = ErrPermission")
        case True
        with Some call scanFn_permission [OF live, of opts sid path ent] that(2) [OF live] show thesis
          by simp
      next
        case False
        with Some call scanFn_failure [OF live False, of opts sid path ent] that(3) [OF live] show thesis
          by simp
      qed
    next
      case None
      note noerr = None
      show thesis
      proof (cases ent)
        case None
        with noerr call scanFn_nil [OF live, of opts sid path] that(4) [OF live] show thesis
          by simp
      next
        case (Some d)
        show thesis
        proof (cases "EntryIsDir d")
          case False
          with noerr Some call scanFn_file [OF live False, of opts sid path] that(5) [OF live] show thesis
            by simp
        next
          case True
          note isdir = True
          show thesis
          proof (cases "skipped opts path d")
            case True
            with noerr Some call scanFn_skipped [OF live isdir True, of sid] that(6) [OF live] isdir
            show thesis by simp
          next
            case False
            note noskip = False
            show thesis
            proof (cases "Targets opts (EntryName d)")
              case None
              with noerr Some call scanFn_plain [OF live isdir noskip None, of sid]
                that(7) [OF live] isdir noskip
              show thesis by simp
            next
              case (Some def)
              note tgt = Some
              obtain x c2 where ds: "dirSize c (RootHandle opts) path = (x, c2)"
                by (cases "dirSize c (RootHandle opts) path")
              show thesis
              proof (cases x)
                case (Inr n)
                with ds have m: "dirSize c (RootHandle opts) path = (Inr n, c2)" by simp
                from noerr \<open>ent = Some d\<close> call scanFn_match [OF live isdir noskip tgt m, of sid]
                  that(10) [OF live noerr \<open>ent = Some d\<close> isdir noskip tgt m]
                show thesis by simp
              next
                case (Inl e)
                with ds have m: "dirSize c (RootHandle opts) path = (Inl e, c2)" by simp
                show thesis
                proof (cases "e = ErrPermission")
                  case True
                  with m have m': "dirSize c (RootHandle opts) path = (Inl ErrPermission, c2)" by simp
                  from noerr \<open>ent = Some d\<close> call
                    scanFn_size_permission [OF live isdir noskip tgt m', of sid]
                    that(8) [OF live noerr \<open>ent = Some d\<close> isdir noskip tgt m']
                  show thesis by simp
                next
                  case False
                  from noerr \<open>ent = Some d\<close> call
                    scanFn_size_failure [OF live isdir noskip tgt m False, of sid]
                    that(9) [OF live noerr \<open>ent = Some d\<close> isdir noskip tgt m False]
                  show thesis by simp
                qed
              qed
            qed
          qed
        qed
      qed
    qed
  qed
qed

lemma sendProgress_out:
  "sOut (sendProgress sid force st) = sOut st
   \<or> sOut (sendProgress sid force st) = sOut st @ [scanProgressMsg sid (sVisited st) (sFound st)]"
  by (auto simp: sendProgress_def split: list.splits)

lemma emittedBy_progress [simp]: "emittedBy opts sid (scanProgressMsg sid v f)"
  by (simp add: emittedBy_def)

lemma sendProgress_emitted:
  "\<forall>m \<in> set (sOut st). emittedBy opts sid m \<Longrightarrow>
   \<forall>m \<in> set (sOut (sendProgress sid force st)). emittedBy opts sid m"
  using sendProgress_out [of sid force st] by auto

lemma visitState_emitted:
  "\<forall>m \<in> set (sOut s0). emittedBy opts sid m \<Longrightarrow>
   \<forall>m \<in> set (sOut (visitState sid c s0)). emittedBy opts sid m"
  unfolding visitState_def by (rule sendProgress_emitted) simp

lemma scanFn_cancel_iff:
  assumes "scanFn opts sid path ent (map_option asError err) s0 = (r0, s')"
  shows "(r0 = Some Canceled) = (sCtx s' = Cancelled)"
  using assms
proof (cases rule: scanFn_cases)
  case (size_permission c d def c2)
  from ctxErr_Cancelled [OF size_permission(1)] have "c \<noteq> Cancelled" by simp
  from dirSize_cancel_iff [OF size_permission(7) this] size_permission show ?thesis by simp
next
  case (size_failure c d def c2 e)
  from ctxErr_Cancelled [OF size_failure(1)] have "c \<noteq> Cancelled" by simp
  from dirSize_cancel_iff [OF size_failure(7) this] size_failure show ?thesis by simp
next
  case (matched c d def c2 n)
  from ctxErr_Cancelled [OF matched(1)] have "c \<noteq> Cancelled" by simp
  from dirSize_cancel_iff [OF matched(7) this] matched show ?thesis by simp
next
  case (failure c e)
  then obtain x where "e = asError x" by (cases err) auto
  with failure ctxErr_Cancelled [OF failure(1)] show ?thesis by simp
qed (use ctxErr_Cancelled in \<open>auto\<close>)


lemma scanFn_emitted:
  assumes "scanFn opts sid path ent err s0 = (r0, s')"
    and "\<forall>m \<in> set (sOut s0). emittedBy opts sid m"
  shows "\<forall>m \<in> set (sOut s'). emittedBy opts sid m"
  using assms(1)
proof (cases rule: scanFn_cases)
  case (matched c d def c2 n)
  let ?st = "(visitState sid c s0)\<lparr>sCtx := c2, sFound := sFound s0 + 1,
                 sOut := sOut (visitState sid c s0) @ [scanRowMsg sid (rowOf path def n)]\<rparr>"
  have "emittedBy opts sid (scanRowMsg sid (rowOf path def n))"
    unfolding emittedBy_def using matched(7) by blast
  with visitState_emitted [OF assms(2), of c] have "\<forall>m \<in> set (sOut ?st). emittedBy opts sid m"
    by simp
  from sendProgress_emitted [OF this] matched show ?thesis by simp
qed (use assms(2) visitState_emitted [OF assms(2)] in \<open>simp_all\<close>)

lemma scanFn_warnings:
  assumes "scanFn opts sid path ent err s0 = (r0, s')"
  shows "prefix (sWarnings s0) (sWarnings s')"
  using assms by (cases rule: scanFn_cases) simp_all

subsection \<open>The walk of the scan and its completion\<close>

lemma emittedBy_not_finished: "emittedBy opts sid m \<Longrightarrow> \<not> isFinished m"
  by (auto simp: emittedBy_def)

lemma scanWalk_cancel_iff:
  assumes "WalkDir (scanFn opts sid) fsys root s = (r, s')"
  shows "(r = Some Canceled) = (sCtx s' = Cancelled)"
proof -
  from WalkDir_origin [OF assms] obtain path ent err s0 r0 where
    f: "scanFn opts sid path ent (map_option asError err) s0 = (r0, s')"
    and r: "r = r0 \<or> (r = None \<and> (r0 = Some SkipDir \<or> r0 = Some SkipAll))"
    unfolding fromCall_def by blast
  from scanFn_cancel_iff [OF f] r show ?thesis by auto
qed


lemma scanWalk_emitted:
  assumes "WalkDir (scanFn opts sid) fsys root s = (r, s')"
    and "\<forall>m \<in> set (sOut s). emittedBy opts sid m"
  shows "\<forall>m \<in> set (sOut s'). emittedBy opts sid m"
  using WalkDir_invariant [of "\<lambda>s. \<forall>m \<in> set (sOut s). emittedBy opts sid m" "scanFn opts sid"]
    scanFn_emitted assms
  by blast

lemma runScanStream_unfold:
  assumes "RootHandle opts = Some fsys"
    and "WalkDir (scanFn opts sid) fsys ''.'' (scanStart ctx elapsed) = (err, st)"
  shows "runScanStream ctx opts sid elapsed =
     (sOut st @ [scanProgressMsg sid (sVisited st) (sFound st),
        scanFinishedMsg sid (sWarnings st) (if err = Some Canceled then None else err)
          (sVisited st) (sFound st)],
      sCtx st)"
  using assms by (simp add: runScanStream_def scanStart_def sendProgress_def Let_def)





lemma walkDir_matched:
  assumes "ctxErr (sCtx s0) = (False, c)" "EntryIsDir d" "\<not> skipped opts path d"
    "Targets opts (EntryName d) = Some def"
    "dirSize c (RootHandle opts) path = (Inr n, c2)"
  shows "walkDir (scanFn opts sid) path (Node d rerr dirs) s0 =
         (None, sendProgress sid True
        ((visitState sid c s0)\<lparr>sCtx := c2, sFound := sFound s0 + 1,
           sOut := sOut (visitState sid c s0) @ [scanRowMsg sid (rowOf path def n)]\<rparr>))"
  using scanFn_match [OF assms, of sid] assms(2) by simp

lemma dirSize_Inr_stat:
  assumes "dirSize ctx (Some fsys) p = (Inr n, c')"
  shows "\<exists>t. fsys p = Inr t"
proof (cases "fsys p")
  case (Inr t)
  then show ?thesis by blast
next
  case (Inl e)
  obtain b c where pc: "ctxErr ctx = (b, c)" by (cases "ctxErr ctx")
  have "\<exists>x. dirSizeFn p None (Some (asError e)) (ctx, 0) = (Some x, (c, 0)) \<and> x \<noteq> SkipDir \<and> x \<noteq> SkipAll"
    using pc by (cases b) (auto simp: dirSizeFn_def)
  with Inl assms show ?thesis
    by (auto simp: dirSize_def WalkDir_def)
qed

lemma scanRows_set: "(row \<in> set (scanRows ms)) = (\<exists>sid. scanRowMsg sid row \<in> set ms)"
proof (induction ms)
  case Nil
  then show ?case by simp
next
  case (Cons m ms)
  then show ?case by (cases m) auto
qed

lemma scanRows_append [simp]: "scanRows (xs @ ys) = scanRows xs @ scanRows ys"
proof (induction xs)
  case Nil
  then show ?case by simp
next
  case (Cons m ms)
  then show ?case by (cases m) auto
qed

lemma runScanStream_emitted:
  assumes "RootHandle opts = Some fsys"
    and "runScanStream ctx opts sid elapsed = (events, ctx')"
  shows "\<exists>pre e. events = pre @ [e] \<and> isFinished e \<and> (\<forall>m \<in> set pre. emittedBy opts sid m)"
proof -
  obtain r st where w: "WalkDir (scanFn opts sid) fsys ''.'' (scanStart ctx elapsed) = (r, st)"
    by (cases "WalkDir (scanFn opts sid) fsys ''.'' (scanStart ctx elapsed)")
  note run = runScanStream_unfold [OF assms(1) w]
  have "\<forall>m \<in> set (sOut (scanStart ctx elapsed)). emittedBy opts sid m"
    by (simp add: scanStart_def)
  from scanWalk_emitted [OF w this]
  have pre: "\<forall>m \<in> set (sOut st @ [scanProgressMsg sid (sVisited st) (sFound st)]). emittedBy opts sid m"
    by simp
  show ?thesis
  proof (intro exI conjI)
    show "events = (sOut st @ [scanProgressMsg sid (sVisited st) (sFound st)]) @
       [scanFinishedMsg sid (sWarnings st) (if r = Some Canceled then None else r)
          (sVisited st) (sFound st)]"
      using run assms(2) by simp
  qed (use pre in simp_all)
qed

lemma runScanStream_row_sizes:
  assumes "RootHandle opts = Some fsys"
    and "runScanStream ctx opts sid elapsed = (events, ctx')"
    and "row \<in> set (scanRows events)"
  shows "\<exists>t. fsys (RelPath row) = Inr t \<and> SizeBytes row = entriesTotal t"
proof -
  from runScanStream_emitted [OF assms(1,2)] obtain pre e where
    ev: "events = pre @ [e]" and fin: "isFinished e" and em: "\<forall>m \<in> set pre. emittedBy opts sid m"
    by blast
  from fin have "scanRows [e] = []" by (cases e) simp_all
  with ev assms(3) have "row \<in> set (scanRows pre)" by simp
  then obtain sid' where "scanRowMsg sid' row \<in> set pre"
    unfolding scanRows_set by blast
  with em have "emittedBy opts sid (scanRowMsg sid' row)" by blast
  then obtain path def n c c2 where
    row: "row = rowOf path def n" and ds: "dirSize c (RootHandle opts) path = (Inr n, c2)"
    unfolding emittedBy_def by auto
  from ds assms(1) have ds': "dirSize c (Some fsys) path = (Inr n, c2)" by simp
  from dirSize_Inr_stat [OF ds'] obtain t where t: "fsys path = Inr t" by blast
  from dirSize_total [OF t ds'] t row show ?thesis by (simp add: rowOf_def)
qed

subsection \<open>Paths of the walk\<close>

lemma splitOn_no_sep_id: "c \<notin> set a \<Longrightarrow> splitOn c a = [a]"
  by (induction a) auto

lemma splitOn_append_sep: "c \<notin> set a \<Longrightarrow> splitOn c (a @ c # b) = a # splitOn c b"
  by (induction a) auto

lemma splitOn_joinSep:
  "ds \<noteq> [] \<Longrightarrow> \<forall>n \<in> set ds. PathSeparator \<notin> set n \<Longrightarrow> splitOn PathSeparator (joinSep ds) = ds"
proof (induction ds rule: joinSep.induct)
  case 1
  then show ?case by simp
next
  case (2 e)
  then show ?case by (simp add: splitOn_no_sep_id)
next
  case (3 e f es)
  then show ?case by (simp add: splitOn_append_sep)
qed

lemma joinSep_snoc: "cs \<noteq> [] \<Longrightarrow> joinSep (cs @ [n]) = joinSep cs @ PathSeparator # n"
  by (induction cs rule: joinSep.induct) auto

lemma joinSep_not_dot:
  assumes "cs \<noteq> []" and "\<forall>c \<in> set cs. wfName c"
  shows "joinSep cs \<noteq> ''.''"
proof
  assume eq: "joinSep cs = ''.''"
  have "\<forall>n \<in> set cs. PathSeparator \<notin> set n" using assms(2) by (simp add: wfName_def)
  from splitOn_joinSep [OF assms(1) this] eq have "cs = splitOn PathSeparator ''.''" by simp
  then have "cs = [''.'']" by (simp add: PathSeparator_def)
  with assms(2) show False by (simp add: wfName_def)
qed

lemma pathJoin_pathOf:
  assumes "\<forall>c \<in> set cs. wfName c"
  shows "pathJoin (pathOf cs) n = pathOf (cs @ [n])"
proof (cases "cs = []")
  case True
  then show ?thesis by (simp add: pathJoin_def pathOf_def)
next
  case False
  with joinSep_not_dot [OF False assms] show ?thesis
    by (simp add: pathJoin_def pathOf_def joinSep_snoc)
qed

lemma splitOn_pathOf:
  "ds \<noteq> [] \<Longrightarrow> \<forall>n \<in> set ds. wfName n \<Longrightarrow> splitOn PathSeparator (pathOf ds) = ds"
  by (simp add: pathOf_def splitOn_joinSep wfName_def)

subsection \<open>Antichains\<close>

lemma antichainI:
  "distinct dss \<Longrightarrow> (\<And>a b. a \<in> set dss \<Longrightarrow> b \<in> set dss \<Longrightarrow> prefix a b \<Longrightarrow> a = b)
   \<Longrightarrow> antichain dss"
  unfolding antichain_def by blast

lemma antichain_distinct: "antichain dss \<Longrightarrow> distinct dss"
  unfolding antichain_def by blast

lemma antichain_prefix:
  "antichain dss \<Longrightarrow> a \<in> set dss \<Longrightarrow> b \<in> set dss \<Longrightarrow> prefix a b \<Longrightarrow> a = b"
  unfolding antichain_def by blast

lemma antichain_Nil [simp]: "antichain []"
  by (simp add: antichain_def)

lemma antichain_single [simp]: "antichain [ds]"
  by (simp add: antichain_def)

lemma antichain_has_Nil: "antichain dss \<Longrightarrow> [] \<in> set dss \<Longrightarrow> dss = [[]]"
proof -
  assume a: "antichain dss" and n: "[] \<in> set dss"
  have all: "\<forall>b \<in> set dss. b = []"
  proof
    fix b
    assume "b \<in> set dss"
    from antichain_prefix [OF a n this] show "b = []" by simp
  qed
  from a have d: "distinct dss" by (rule antichain_distinct)
  show "dss = [[]]"
  proof (cases dss)
    case Nil
    with n show ?thesis by simp
  next
    case (Cons x xs)
    with all have x: "x = []" by simp
    have "xs = []"
    proof (cases xs)
      case Nil
      then show ?thesis .
    next
      case (Cons y ys)
      with \<open>dss = x # xs\<close> all have "y = []" by simp
      with x Cons \<open>dss = x # xs\<close> d show ?thesis by simp
    qed
    with x Cons show ?thesis by simp
  qed
qed

lemma antichain_under:
  assumes "antichain as" and "antichain bs"
    and "\<forall>b \<in> set bs. b \<noteq> [] \<and> hd b \<noteq> n"
  shows "antichain (map ((#) n) as @ bs)"
proof -
  have d1: "distinct (map ((#) n) as)"
    using antichain_distinct [OF assms(1)] by (simp add: distinct_map inj_on_def)
  have d2: "distinct bs"
    using assms(2) by (rule antichain_distinct)
  have d3: "set (map ((#) n) as) \<inter> set bs = {}"
  proof (rule ccontr)
    assume "set (map ((#) n) as) \<inter> set bs \<noteq> {}"
    then obtain x where x: "x \<in> set (map ((#) n) as)" "x \<in> set bs" by blast
    from x(1) obtain a where "x = n # a" by auto
    moreover from x(2) assms(3) have "hd x \<noteq> n" by blast
    ultimately show False by simp
  qed
  have d: "distinct (map ((#) n) as @ bs)"
    using d1 d2 d3 by simp
  have p: "\<forall>a \<in> set (map ((#) n) as @ bs). \<forall>b \<in> set (map ((#) n) as @ bs). prefix a b \<longrightarrow> a = b"
  proof (intro ballI impI)
    fix a b
    assume a: "a \<in> set (map ((#) n) as @ bs)" and b: "b \<in> set (map ((#) n) as @ bs)"
      and pre: "prefix a b"
    show "a = b"
    proof (cases "a \<in> set bs")
      case True
      note abs = True
      show ?thesis
      proof (cases "b \<in> set bs")
        case True
        from antichain_prefix [OF assms(2) abs True pre] show ?thesis .
      next
        case False
        with b obtain b' where "b = n # b'" by auto
        moreover from abs assms(3) have "a \<noteq> [] \<and> hd a \<noteq> n" by blast
        ultimately show ?thesis using pre by (cases a) auto
      qed
    next
      case False
      with a obtain a' where a': "a = n # a'" "a' \<in> set as" by auto
      show ?thesis
      proof (cases "b \<in> set bs")
        case True
        with assms(3) have "b \<noteq> [] \<and> hd b \<noteq> n" by blast
        with a' pre show ?thesis by (cases b) auto
      next
        case False
        with b obtain b' where b': "b = n # b'" "b' \<in> set as" by auto
        with a' pre have "prefix a' b'" by simp
        from antichain_prefix [OF assms(1) a'(2) b'(2) this] a' b' show ?thesis by simp
      qed
    qed
  qed
  from d p show ?thesis unfolding antichain_def by blast
qed

subsection \<open>The rows of a walk are leaves\<close>

lemma rowPaths_sendProgress [simp]: "rowPaths (sendProgress sid force st) = rowPaths st"
  using sendProgress_out [of sid force st] by (auto simp: rowPaths_def)

lemma rowPaths_visitState [simp]: "rowPaths (visitState sid c s0) = rowPaths s0"
  by (simp add: visitState_def) (simp add: rowPaths_def)

lemma rowPaths_update [simp]:
  "rowPaths (s\<lparr>sCtx := c\<rparr>) = rowPaths s"
  "rowPaths (s\<lparr>sWarnings := w\<rparr>) = rowPaths s"
  "rowPaths (s\<lparr>sFound := f\<rparr>) = rowPaths s"
  "rowPaths (s\<lparr>sOut := sOut s @ [scanRowMsg sid (rowOf path def n)]\<rparr>) = rowPaths s @ [path]"
  by (simp_all add: rowPaths_def rowOf_def)

lemma scanFn_rowPaths:
  assumes "scanFn opts sid path ent err s0 = (r0, s')"
  shows "rowPaths s' = rowPaths s0
     \<or> (r0 = Some SkipDir \<and> err = None \<and> (\<exists>d. ent = Some d \<and> EntryIsDir d)
         \<and> rowPaths s' = rowPaths s0 @ [path])"
  using assms
proof (cases rule: scanFn_cases)
  case (matched c d def c2 n)
  let ?v = "visitState sid c s0"
  have "rowPaths (?v\<lparr>sCtx := c2, sFound := sFound s0 + 1,
            sOut := sOut ?v @ [scanRowMsg sid (rowOf path def n)]\<rparr>) = rowPaths ?v @ [path]"
    by (simp add: rowPaths_def rowOf_def)
  with matched show ?thesis by simp
qed simp_all

lemma leaves_none: "rowPaths s' = rowPaths s \<Longrightarrow> leaves cs s s' []"
  by (simp add: leaves_def)

lemma leaves_self: "rowPaths s' = rowPaths s @ [pathOf cs] \<Longrightarrow> leaves cs s s' [[]]"
  by (simp add: leaves_def)

lemma leaves_shift: "rowPaths s1 = rowPaths s \<Longrightarrow> leaves cs s1 s' dss \<Longrightarrow> leaves cs s s' dss"
  by (simp add: leaves_def)

lemma leaves_child:
  assumes "leaves (cs @ [n]) s s1 dss1" and "wfName n"
  shows "leaves cs s s1 (map ((#) n) dss1)"
proof -
  have "antichain (map ((#) n) dss1 @ [])"
    using assms(1) by (intro antichain_under) (simp_all add: leaves_def)
  then show ?thesis
    using assms by (simp add: leaves_def comp_def)
qed

lemma leaves_append:
  assumes "leaves cs s s1 (map ((#) n) dss1)" and "leaves cs s1 s' dss2"
    and "antichain dss1" and "\<forall>b \<in> set dss2. b \<noteq> [] \<and> hd b \<noteq> n"
  shows "leaves cs s s' (map ((#) n) dss1 @ dss2)"
proof -
  have "antichain (map ((#) n) dss1 @ dss2)"
    using assms(3) _ assms(4) by (rule antichain_under) (use assms(2) in \<open>simp add: leaves_def\<close>)
  moreover have "\<forall>ds \<in> set (map ((#) n) dss1 @ dss2). \<forall>n \<in> set ds. wfName n"
    using assms(1,2) unfolding leaves_def by (metis Un_iff set_append)
  ultimately show ?thesis
    using assms(1,2) by (simp add: leaves_def)
qed

subsection \<open>A cancelled context stops the walk\<close>

lemma within_le: "within n c v \<Longrightarrow> v \<le> n"
  by (cases c) simp_all

lemma within_mono: "within n c (Suc v) \<Longrightarrow> within n c v"
  by (cases c) simp_all

lemma ctxErr_within:
  "within n c v \<Longrightarrow> ctxErr c = (b, c') \<Longrightarrow> (if b then within n c' v else within n c' (Suc v))"
  by (cases c rule: ctxErr.cases) auto

lemma ctxErr_within_weak: "within n c v \<Longrightarrow> ctxErr c = (b, c') \<Longrightarrow> within n c' v"
  using ctxErr_within [of n c v b c'] within_mono by (cases b) auto

lemma dirSizeFn_ctx:
  "dirSizeFn path ent err (c, a) = (r, (c', a')) \<Longrightarrow> c' = snd (ctxErr c)"
  by (cases "ctxErr c") (auto simp: dirSizeFn_def split: option.splits sum.splits if_splits)

lemma dirSize_within:
  assumes "within n c v" and "dirSize c root p = (x, c')"
  shows "within n c' v"
proof (cases root)
  case None
  with assms show ?thesis by (auto simp: dirSize_def)
next
  case (Some fsys)
  obtain r c1 a1 where w: "WalkDir dirSizeFn fsys p (c, 0) = (r, (c1, a1))"
    by (metis prod.exhaust)
  have step: "\<And>path ent err s r s'. within n (fst s) v \<Longrightarrow> dirSizeFn path ent err s = (r, s')
      \<Longrightarrow> within n (fst s') v"
  proof -
    fix path ent err and s :: "context \<times> int64" and r s'
    assume i: "within n (fst s) v" and f: "dirSizeFn path ent err s = (r, s')"
    obtain c0 a0 where s: "s = (c0, a0)" by (cases s)
    obtain c2 a2 where s': "s' = (c2, a2)" by (cases s')
    from dirSizeFn_ctx [of path ent err c0 a0 r c2 a2] f s s' have "c2 = snd (ctxErr c0)" by simp
    with ctxErr_within_weak [of n c0 v "fst (ctxErr c0)" "snd (ctxErr c0)"] i s s'
    show "within n (fst s') v" by simp
  qed
  have "within n (fst (c, 0 :: int64)) v" using assms(1) by simp
  from WalkDir_invariant [of "\<lambda>s. within n (fst s) v" dirSizeFn, OF step this w]
  have "within n c1 v" by simp
  moreover from w Some assms(2) have "c' = c1" by (cases r) (auto simp: dirSize_def)
  ultimately show ?thesis by simp
qed

lemma scanFn_within:
  assumes "scanFn opts sid path ent err s0 = (r0, s')"
    and "within n (sCtx s0) (sVisited s0)" and "length (rowPaths s0) \<le> sVisited s0"
  shows "within n (sCtx s') (sVisited s') \<and> length (rowPaths s') \<le> sVisited s'"
  using assms(1)
proof (cases rule: scanFn_cases)
  case (cancelled c)
  with ctxErr_within_weak [OF assms(2) cancelled(1)] assms(3) show ?thesis by simp
next
  case (permission c)
  with ctxErr_within_weak [OF assms(2) permission(1)] assms(3) show ?thesis by simp
next
  case (failure c e)
  with ctxErr_within_weak [OF assms(2) failure(1)] assms(3) show ?thesis by simp
next
  case (nil_entry c)
  with ctxErr_within_weak [OF assms(2) nil_entry(1)] assms(3) show ?thesis by simp
next
  case (not_dir c d)
  with ctxErr_within_weak [OF assms(2) not_dir(1)] assms(3) show ?thesis by simp
next
  case (skip c d)
  with ctxErr_within [OF assms(2) skip(1)] assms(3) show ?thesis by simp
next
  case (plain c d)
  with ctxErr_within [OF assms(2) plain(1)] assms(3) show ?thesis by simp
next
  case (size_permission c d def c2)
  from ctxErr_within [OF assms(2) size_permission(1)]
  have "within n c (Suc (sVisited s0))" by simp
  from dirSize_within [OF this size_permission(7)] size_permission assms(3) show ?thesis by simp
next
  case (size_failure c d def c2 e)
  from ctxErr_within [OF assms(2) size_failure(1)]
  have "within n c (Suc (sVisited s0))" by simp
  from dirSize_within [OF this size_failure(7)] size_failure assms(3) show ?thesis by simp
next
  case (matched c d def c2 n')
  let ?v = "visitState sid c s0"
  from ctxErr_within [OF assms(2) matched(1)]
  have "within n c (Suc (sVisited s0))" by simp
  from dirSize_within [OF this matched(7)] have w: "within n c2 (Suc (sVisited s0))" .
  have "rowPaths (?v\<lparr>sCtx := c2, sFound := sFound s0 + 1,
            sOut := sOut ?v @ [scanRowMsg sid (rowOf path def n')]\<rparr>) = rowPaths ?v @ [path]"
    by (simp add: rowPaths_def rowOf_def)
  with matched w assms(3) show ?thesis by simp
qed

lemma scanWalk_within:
  assumes "WalkDir (scanFn opts sid) fsys root (scanStart (CancelAfter n) elapsed) = (r, st)"
  shows "sVisited st \<le> n \<and> length (scanRows (sOut st)) \<le> sVisited st"
proof -
  let ?I = "\<lambda>s. within n (sCtx s) (sVisited s) \<and> length (rowPaths s) \<le> sVisited s"
  have step: "\<And>path ent err s r s'. ?I s \<Longrightarrow> scanFn opts sid path ent err s = (r, s') \<Longrightarrow> ?I s'"
    using scanFn_within by blast
  have "?I (scanStart (CancelAfter n) elapsed)"
    by (simp add: scanStart_def rowPaths_def)
  from WalkDir_invariant [of ?I "scanFn opts sid", OF step this assms]
  have "?I st" .
  with within_le show ?thesis by (auto simp: rowPaths_def)
qed

lemma walkDir_cancelled:
  assumes "fst (ctxErr (sCtx s))"
  shows "walkDir (scanFn opts sid) path t s = (Some Canceled, s\<lparr>sCtx := Cancelled\<rparr>)"
proof -
  from assms obtain c where p: "ctxErr (sCtx s) = (True, c)"
    by (cases "ctxErr (sCtx s)") auto
  from ctxErr_Cancelled [OF p] have c: "c = Cancelled" by simp
  obtain d rerr dirs where t: "t = Node d rerr dirs" by (cases t)
  from scanFn_cancelled [OF p] c t show ?thesis by simp
qed

lemma dirSize_cancelled:
  assumes "fst (ctxErr c)"
  shows "dirSize c (Some fsys) p = (Inl Canceled, Cancelled)"
proof -
  from assms obtain c1 where pc: "ctxErr c = (True, c1)" by (cases "ctxErr c") auto
  from ctxErr_Cancelled [OF pc] have c1: "c1 = Cancelled" by simp
  have call: "\<And>ent err. dirSizeFn p ent err (c, 0) = (Some Canceled, (Cancelled, 0))"
    using pc c1 by (simp add: dirSizeFn_cancelled)
  show ?thesis
  proof (cases "fsys p")
    case (Inl e)
    with call show ?thesis by (simp add: dirSize_def WalkDir_def)
  next
    case (Inr t)
    obtain d rerr dirs where "t = Node d rerr dirs" by (cases t)
    with Inr call show ?thesis by (simp add: dirSize_def WalkDir_def)
  qed
qed

lemma leaves_antichain: "leaves cs s s' dss \<Longrightarrow> antichain dss"
  by (simp add: leaves_def)

lemma walkDirs_leaves:
  assumes kids: "\<forall>k \<in> set ts. \<forall>cs s r s'. (\<forall>c \<in> set cs. wfName c) \<longrightarrow>
            walkDir (scanFn opts sid) (pathOf cs) k s = (r, s') \<longrightarrow> (\<exists>dss. leaves cs s s' dss)"
    and names: "distinct (map (\<lambda>k. EntryName (entry k)) ts)"
      "\<forall>k \<in> set ts. wfName (EntryName (entry k))"
    and cs: "\<forall>c \<in> set cs. wfName c"
    and walk: "walkDirs (scanFn opts sid) (pathOf cs) ts s = (r, s')"
  shows "\<exists>dss. leaves cs s s' dss
           \<and> (\<forall>ds \<in> set dss. ds \<noteq> [] \<and> hd ds \<in> set (map (\<lambda>k. EntryName (entry k)) ts))"
  using kids names walk
proof (induction ts arbitrary: s)
  case Nil
  from Nil.prems(4) have "s' = s" by simp
  then have "leaves cs s s' []" by (simp add: leaves_none)
  moreover have "\<forall>ds \<in> set ([] :: string list list). ds \<noteq> [] \<and> hd ds \<in> set (map (\<lambda>k. EntryName (entry k)) [])"
    by simp
  ultimately show ?case by blast
next
  case (Cons k ts)
  let ?n = "EntryName (entry k)"
  have wn: "wfName ?n" using Cons.prems(3) by simp
  have fresh: "?n \<notin> set (map (\<lambda>k. EntryName (entry k)) ts)"
    using Cons.prems(2) by simp
  have cs': "\<forall>c \<in> set (cs @ [?n]). wfName c" using cs wn by simp
  obtain r1 s1 where w: "walkDir (scanFn opts sid) (pathOf (cs @ [?n])) k s = (r1, s1)"
    by (cases "walkDir (scanFn opts sid) (pathOf (cs @ [?n])) k s")
  have "k \<in> set (k # ts)" by simp
  with Cons.prems(1)
  have "\<forall>cs s r s'. (\<forall>c \<in> set cs. wfName c) \<longrightarrow>
            walkDir (scanFn opts sid) (pathOf cs) k s = (r, s') \<longrightarrow> (\<exists>dss. leaves cs s s' dss)"
    by (rule bspec)
  with cs' w obtain dss1 where l1: "leaves (cs @ [?n]) s s1 dss1" by blast
  note c1 = leaves_child [OF l1 wn]
  have hd1: "\<forall>ds \<in> set (map ((#) ?n) dss1). ds \<noteq> [] \<and> hd ds \<in> set (map (\<lambda>k. EntryName (entry k)) (k # ts))"
    by auto
  have w': "walkDir (scanFn opts sid) (pathJoin (pathOf cs) ?n) k s = (r1, s1)"
    using w pathJoin_pathOf [OF cs, of ?n] by simp
  show ?case
  proof (cases r1)
    case (Some e)
    with w' Cons.prems(4) have "s' = s1" by (auto split: if_splits)
    with c1 hd1 show ?thesis by blast
  next
    case None
    with w' Cons.prems(4) have rest: "walkDirs (scanFn opts sid) (pathOf cs) ts s1 = (r, s')"
      by simp
    have kids': "\<forall>k \<in> set ts. \<forall>cs s r s'. (\<forall>c \<in> set cs. wfName c) \<longrightarrow>
            walkDir (scanFn opts sid) (pathOf cs) k s = (r, s') \<longrightarrow> (\<exists>dss. leaves cs s s' dss)"
    proof
      fix j
      assume "j \<in> set ts"
      then have "j \<in> set (k # ts)" by simp
      with Cons.prems(1) show "\<forall>cs s r s'. (\<forall>c \<in> set cs. wfName c) \<longrightarrow>
            walkDir (scanFn opts sid) (pathOf cs) j s = (r, s') \<longrightarrow> (\<exists>dss. leaves cs s s' dss)"
        by (rule bspec)
    qed
    have d': "distinct (map (\<lambda>k. EntryName (entry k)) ts)" using Cons.prems(2) by simp
    have n': "\<forall>k \<in> set ts. wfName (EntryName (entry k))" using Cons.prems(3) by simp
    from Cons.IH [OF kids' d' n' rest] obtain dss2 where
      l2: "leaves cs s1 s' dss2"
      and hd2: "\<forall>ds \<in> set dss2. ds \<noteq> [] \<and> hd ds \<in> set (map (\<lambda>k. EntryName (entry k)) ts)"
      by blast
    have sep: "\<forall>b \<in> set dss2. b \<noteq> [] \<and> hd b \<noteq> ?n"
    proof
      fix b
      assume "b \<in> set dss2"
      with hd2 have b: "b \<noteq> []" "hd b \<in> set (map (\<lambda>k. EntryName (entry k)) ts)"
        by simp_all
      from b(2) fresh have "hd b \<noteq> ?n" by metis
      with b(1) show "b \<noteq> [] \<and> hd b \<noteq> ?n" by simp
    qed
    from leaves_append [OF c1 l2 leaves_antichain [OF l1] sep]
    have l: "leaves cs s s' (map ((#) ?n) dss1 @ dss2)" .
    have "\<forall>ds \<in> set (map ((#) ?n) dss1 @ dss2).
            ds \<noteq> [] \<and> hd ds \<in> set (map (\<lambda>k. EntryName (entry k)) (k # ts))"
      using hd1 hd2 by auto
    with l show ?thesis by blast
  qed
qed

lemma walkDir_leaves:
  "wfTree t \<Longrightarrow> \<forall>c \<in> set cs. wfName c \<Longrightarrow>
   walkDir (scanFn opts sid) (pathOf cs) t s = (r, s') \<Longrightarrow> \<exists>dss. leaves cs s s' dss"
proof (induction t arbitrary: cs s r s')
  case (Node d rerr dirs)
  let ?fn = "scanFn opts sid"
  have kids: "\<forall>k \<in> set dirs. \<forall>cs s r s'. (\<forall>c \<in> set cs. wfName c) \<longrightarrow>
            walkDir ?fn (pathOf cs) k s = (r, s') \<longrightarrow> (\<exists>dss. leaves cs s s' dss)"
  proof (intro ballI allI impI)
    fix k cs s r s'
    assume k: "k \<in> set dirs" and c: "\<forall>c \<in> set cs. wfName c"
      and w: "walkDir ?fn (pathOf cs) k s = (r, s')"
    from Node.prems(1) k have "wfTree k" by simp
    from Node.IH [OF k this c w] show "\<exists>dss. leaves cs s s' dss" .
  qed
  have names: "distinct (map (\<lambda>k. EntryName (entry k)) dirs)"
    "\<forall>k \<in> set dirs. wfName (EntryName (entry k))"
    using Node.prems(1) by simp_all
  note below = walkDirs_leaves [OF kids names Node.prems(2)]
  obtain r1 s1 where f1: "?fn (pathOf cs) (Some d) None s = (r1, s1)"
    by (cases "?fn (pathOf cs) (Some d) None s")
  from scanFn_rowPaths [OF f1]
  consider (row) "r1 = Some SkipDir" "EntryIsDir d" "rowPaths s1 = rowPaths s @ [pathOf cs]"
    | (norow) "rowPaths s1 = rowPaths s"
    by auto
  then show ?case
  proof cases
    case row
    with f1 Node.prems(3) have "s' = s1" by simp
    with row(3) leaves_self show ?thesis by blast
  next
    case norow
    show ?thesis
    proof (cases "r1 = None \<and> EntryIsDir d")
      case False
      with f1 Node.prems(3) have "s' = s1" by (auto split: if_splits option.splits)
      with norow leaves_none show ?thesis by blast
    next
      case True
      show ?thesis
      proof (cases rerr)
        case None
        with True f1 Node.prems(3) have "walkDirs ?fn (pathOf cs) dirs s1 = (r, s')" by simp
        from below [OF this] obtain dss where "leaves cs s1 s' dss" by blast
        from leaves_shift [OF norow this] show ?thesis by blast
      next
        case (Some e)
        obtain r2 s2 where f2: "?fn (pathOf cs) (Some d) (Some (asError e)) s1 = (r2, s2)"
          by (cases "?fn (pathOf cs) (Some d) (Some (asError e)) s1")
        from scanFn_rowPaths [OF f2] norow have same: "rowPaths s2 = rowPaths s" by simp
        show ?thesis
        proof (cases r2)
          case None
          with True f1 f2 Some Node.prems(3) have "walkDirs ?fn (pathOf cs) dirs s2 = (r, s')"
            by simp
          from below [OF this] obtain dss where "leaves cs s2 s' dss" by blast
          from leaves_shift [OF same this] show ?thesis by blast
        next
          case e2: (Some e2)
          with True f1 f2 Some Node.prems(3) have "s' = s2" by (auto split: if_splits)
          with same leaves_none show ?thesis by blast
        qed
      qed
    qed
  qed
qed

lemma pathOf_antichain:
  assumes "antichain dss" and "\<forall>ds \<in> set dss. \<forall>n \<in> set ds. wfName n"
  shows "distinct (map pathOf dss)"
    and "\<forall>a \<in> set dss. \<forall>b \<in> set dss.
           prefix (splitOn PathSeparator (pathOf a)) (splitOn PathSeparator (pathOf b)) \<longrightarrow> a = b"
proof -
  show "distinct (map pathOf dss)"
  proof (cases "[] \<in> set dss")
    case True
    from antichain_has_Nil [OF assms(1) True] show ?thesis by simp
  next
    case False
    have inj: "inj_on pathOf (set dss)"
    proof (rule inj_onI)
      fix a b
      assume a: "a \<in> set dss" and b: "b \<in> set dss" and eq: "pathOf a = pathOf b"
      from a b False have ne: "a \<noteq> []" "b \<noteq> []" by auto
      from a assms(2) have wa: "\<forall>n \<in> set a. wfName n" by blast
      from b assms(2) have wb: "\<forall>n \<in> set b. wfName n" by blast
      from splitOn_pathOf [OF ne(1) wa] splitOn_pathOf [OF ne(2) wb] eq show "a = b" by metis
    qed
    with antichain_distinct [OF assms(1)] show ?thesis by (simp add: distinct_map)
  qed
  show "\<forall>a \<in> set dss. \<forall>b \<in> set dss.
           prefix (splitOn PathSeparator (pathOf a)) (splitOn PathSeparator (pathOf b)) \<longrightarrow> a = b"
  proof (cases "[] \<in> set dss")
    case True
    from antichain_has_Nil [OF assms(1) True] show ?thesis by simp
  next
    case False
    show ?thesis
    proof (intro ballI impI)
      fix a b
      assume a: "a \<in> set dss" and b: "b \<in> set dss"
        and pre: "prefix (splitOn PathSeparator (pathOf a)) (splitOn PathSeparator (pathOf b))"
      from a b False have ne: "a \<noteq> []" "b \<noteq> []" by auto
      from a assms(2) have wa: "\<forall>n \<in> set a. wfName n" by blast
      from b assms(2) have wb: "\<forall>n \<in> set b. wfName n" by blast
      from splitOn_pathOf [OF ne(1) wa] splitOn_pathOf [OF ne(2) wb] pre have "prefix a b" by metis
      from antichain_prefix [OF assms(1) a b this] show "a = b" .
    qed
  qed
qed

lemma scan_rowPaths:
  assumes "RootHandle opts = Some fsys" and "fsys ''.'' = Inr t" and "wfTree t"
    and "runScanStream ctx opts sid elapsed = (events, ctx')"
  shows "\<exists>dss. map RelPath (scanRows events) = map pathOf dss \<and> antichain dss
           \<and> (\<forall>ds \<in> set dss. \<forall>n \<in> set ds. wfName n)"
proof -
  obtain r st where w: "walkDir (scanFn opts sid) ''.'' t (scanStart ctx elapsed) = (r, st)"
    by (cases "walkDir (scanFn opts sid) ''.'' t (scanStart ctx elapsed)")
  have p: "pathOf [] = ''.''" by (simp add: pathOf_def)
  have "\<forall>c \<in> set ([] :: string list). wfName c" by simp
  from walkDir_leaves [OF assms(3) this, of opts sid "scanStart ctx elapsed" r st] w p
  obtain dss where l: "leaves [] (scanStart ctx elapsed) st dss" by auto
  have start: "rowPaths (scanStart ctx elapsed) = []"
    by (simp add: rowPaths_def scanStart_def)
  have "\<exists>r'. WalkDir (scanFn opts sid) fsys ''.'' (scanStart ctx elapsed) = (r', st)"
    using w assms(2) by (simp add: WalkDir_def)
  then obtain r' where W: "WalkDir (scanFn opts sid) fsys ''.'' (scanStart ctx elapsed) = (r', st)"
    by blast
  from runScanStream_unfold [OF assms(1) W] assms(4)
  have "scanRows events = scanRows (sOut st)" by auto
  then have "map RelPath (scanRows events) = rowPaths st" by (simp add: rowPaths_def)
  with l start have "map RelPath (scanRows events) = map pathOf dss"
    by (simp add: leaves_def)
  with l show ?thesis unfolding leaves_def by blast
qed

lemma scan_rows_leaves:
  assumes "RootHandle opts = Some fsys" and "fsys ''.'' = Inr t" and "wfTree t"
    and "runScanStream ctx opts sid elapsed = (events, ctx')"
  shows "distinct (map RelPath (scanRows events))"
    and "\<forall>r \<in> set (scanRows events). \<forall>r' \<in> set (scanRows events).
           prefix (splitOn PathSeparator (RelPath r)) (splitOn PathSeparator (RelPath r'))
           \<longrightarrow> r = r'"
proof -
  from scan_rowPaths [OF assms] obtain dss where
    m: "map RelPath (scanRows events) = map pathOf dss" and a: "antichain dss"
    and wf: "\<forall>ds \<in> set dss. \<forall>n \<in> set ds. wfName n"
    by blast
  note pa = pathOf_antichain [OF a wf]
  from pa(1) m show d: "distinct (map RelPath (scanRows events))" by simp
  show "\<forall>r \<in> set (scanRows events). \<forall>r' \<in> set (scanRows events).
           prefix (splitOn PathSeparator (RelPath r)) (splitOn PathSeparator (RelPath r'))
           \<longrightarrow> r = r'"
  proof (intro ballI impI)
    fix r r'
    assume r: "r \<in> set (scanRows events)" and r': "r' \<in> set (scanRows events)"
      and pre: "prefix (splitOn PathSeparator (RelPath r)) (splitOn PathSeparator (RelPath r'))"
    from r have "RelPath r \<in> set (map pathOf dss)" unfolding m [symmetric] by simp
    then obtain x where x: "x \<in> set dss" "RelPath r = pathOf x" by auto
    from r' have "RelPath r' \<in> set (map pathOf dss)" unfolding m [symmetric] by simp
    then obtain y where y: "y \<in> set dss" "RelPath r' = pathOf y" by auto
    from pa(2) x y pre have "x = y" by simp
    with x y have "RelPath r = RelPath r'" by simp
    moreover from d have "inj_on RelPath (set (scanRows events))" by (simp add: distinct_map)
    ultimately show "r = r'" using r r' by (simp add: inj_on_def)
  qed
qed

lemma walkDir_matched_rows:
  assumes "ctxErr (sCtx s) = (False, c)" "EntryIsDir d" "\<not> skipped opts path d"
    "Targets opts (EntryName d) = Some def"
    "dirSize c (RootHandle opts) path = (Inr n, c2)"
  shows "\<exists>st. walkDir (scanFn opts sid) path (Node d rerr dirs) s = (None, st)
           \<and> scanRows (sOut st) = scanRows (sOut s) @ [rowOf path def n]
           \<and> sFound st = sFound s + 1 \<and> sVisited st = sVisited s + 1
           \<and> sWarnings st = sWarnings s"
proof -
  let ?v = "visitState sid c s"
  let ?st = "sendProgress sid True
        (?v\<lparr>sCtx := c2, sFound := sFound s + 1,
           sOut := sOut ?v @ [scanRowMsg sid (rowOf path def n)]\<rparr>)"
  have "rowPaths ?v = rowPaths s" by simp
  have v: "scanRows (sOut ?v) = scanRows (sOut s)"
    using sendProgress_out [of sid False "s\<lparr>sCtx := c, sVisited := sVisited s + 1\<rparr>"]
    by (auto simp: visitState_def)
  have "scanRows (sOut ?st) = scanRows (sOut ?v) @ [rowOf path def n]"
    by (simp add: sendProgress_def)
  with v have rows: "scanRows (sOut ?st) = scanRows (sOut s) @ [rowOf path def n]" by simp
  from walkDir_matched [OF assms, of sid rerr dirs] rows show ?thesis by simp
qed

section \<open>The scan: cancellation, failures, sizes and leaves\<close>

lemma scanWalk_cancelled_start:
  assumes "ctxErr ctx = (True, c)"
  shows "WalkDir (scanFn opts sid) fsys root (scanStart ctx elapsed) =
         (Some Canceled, (scanStart ctx elapsed)\<lparr>sCtx := c\<rparr>)"
proof -
  have p: "ctxErr (sCtx (scanStart ctx elapsed)) = (True, c)"
    using assms by (simp add: scanStart_def)
  show ?thesis
  proof (cases "fsys root")
    case (Inl e)
    with scanFn_cancelled [OF p] show ?thesis by (simp add: WalkDir_def)
  next
    case (Inr t)
    obtain d rerr dirs where t: "t = Node d rerr dirs" by (cases t)
    with Inr scanFn_cancelled [OF p] show ?thesis by (simp add: WalkDir_def)
  qed
qed

lemma scan_completion:
  assumes "RootHandle opts = Some fsys"
    and "runScanStream ctx opts sid elapsed = (events, ctx')"
  shows "\<exists>pre ws err v f.
            events = pre @ [scanProgressMsg sid v f, scanFinishedMsg sid ws err v f]
            \<and> (\<forall>m \<in> set pre. \<not> isFinished m)
            \<and> err \<noteq> Some Canceled
            \<and> (ctx' = Cancelled \<longrightarrow> err = None)
            \<and> (\<forall>n. ctx = CancelAfter n \<longrightarrow> v \<le> n \<and> length (scanRows pre) \<le> v)"
proof -
  obtain r st where w: "WalkDir (scanFn opts sid) fsys ''.'' (scanStart ctx elapsed) = (r, st)"
    by (cases "WalkDir (scanFn opts sid) fsys ''.'' (scanStart ctx elapsed)")
  note run = runScanStream_unfold [OF assms(1) w]
  have "\<forall>m \<in> set (sOut (scanStart ctx elapsed)). emittedBy opts sid m"
    by (simp add: scanStart_def)
  from scanWalk_emitted [OF w this] have pre: "\<forall>m \<in> set (sOut st). \<not> isFinished m"
    using emittedBy_not_finished by blast
  let ?err = "if r = Some Canceled then None else r"
  have e1: "?err \<noteq> Some Canceled" by simp
  have e2: "ctx' = Cancelled \<longrightarrow> ?err = None"
    using scanWalk_cancel_iff [OF w] run assms(2) by simp
  have e3: "\<forall>n. ctx = CancelAfter n \<longrightarrow>
      sVisited st \<le> n \<and> length (scanRows (sOut st)) \<le> sVisited st"
    using scanWalk_within w by blast
  show ?thesis
  proof (intro exI conjI)
    show "events = sOut st @ [scanProgressMsg sid (sVisited st) (sFound st),
        scanFinishedMsg sid (sWarnings st) ?err (sVisited st) (sFound st)]"
      using run assms(2) by simp
  qed (rule pre e1 e2 e3)+
qed

lemma scan_cancelled_at_start:
  assumes "RootHandle opts = Some fsys"
    and "runScanStream ctx opts sid elapsed = (events, ctx')"
    and "fst (ctxErr ctx)"
  shows "events = [scanProgressMsg sid 0 0, scanFinishedMsg sid [] None 0 0] \<and> ctx' = Cancelled"
proof -
  from assms(3) obtain c1 where p: "ctxErr ctx = (True, c1)" by (cases "ctxErr ctx") auto
  from ctxErr_Cancelled [OF p] have c1: "c1 = Cancelled" by simp
  note w = scanWalk_cancelled_start [OF p, of opts sid fsys "''.''" elapsed]
  from runScanStream_unfold [OF assms(1) w] assms(2) c1 show ?thesis
    by (simp add: scanStart_def)
qed

lemma walkDirs_cancelled:
  assumes "fst (ctxErr (sCtx s))"
  shows "walkDirs (scanFn opts sid) path (t # rest) s = (Some Canceled, s\<lparr>sCtx := Cancelled\<rparr>)"
  using walkDir_cancelled [OF assms, of opts sid "pathJoin path (EntryName (entry t))" t]
  by simp

lemma walkDir_size_cancelled:
  assumes "ctxErr (sCtx s) = (False, c)" "EntryIsDir d" "\<not> skipped opts path d"
    "Targets opts (EntryName d) = Some def" "RootHandle opts = Some fsys" "fst (ctxErr c)"
  shows "walkDir (scanFn opts sid) path (Node d rerr dirs) s =
         (Some Canceled, (visitState sid c s)\<lparr>sCtx := Cancelled\<rparr>)"
proof -
  from dirSize_cancelled [OF assms(6), of fsys path] assms(5)
  have ds: "dirSize c (RootHandle opts) path = (Inl Canceled, Cancelled)" by simp
  from scanFn_size_failure [OF assms(1-4) ds, of sid] show ?thesis by simp
qed

lemma scan_cancelled_run:
  assumes "RootHandle opts = Some fsys" and "fsys ''.'' = Inr t"
    and "walkDir (scanFn opts sid) ''.'' t (scanStart ctx elapsed) = (Some Canceled, st)"
  shows "runScanStream ctx opts sid elapsed =
     (sOut st @ [scanProgressMsg sid (sVisited st) (sFound st),
        scanFinishedMsg sid (sWarnings st) None (sVisited st) (sFound st)],
      sCtx st)"
proof -
  from assms(2,3) have "WalkDir (scanFn opts sid) fsys ''.'' (scanStart ctx elapsed) = (Some Canceled, st)"
    by (simp add: WalkDir_def)
  from runScanStream_unfold [OF assms(1) this] show ?thesis by simp
qed

text \<open>
  C5. A scan with a root handle ends with one completion message, which is the last
  message and follows a progress message; its error is never the cancellation error,
  and it carries no error at all when the scan has seen its context cancelled. Of a
  context that answers only \<open>n\<close> calls before it is cancelled, the scan visits at
  most \<open>n\<close> directories and reports at most as many rows as it visits; a scan whose
  context is cancelled before the first directory sends nothing else. Wherever the
  walk comes to an entry with the context cancelled, it ends there with the
  cancellation error: the entry is not counted, nothing is sent, neither its entries
  nor the entries after it are walked. A matched directory at which the context is
  lost before its size is computed is counted, but no row is sent for it. The
  cancellation error ends the walk of the enclosing directory and of every directory
  above with the state unchanged, and the scan then sends the last progress message
  and the completion message without error.
\<close>

theorem scan_cancelled_no_error:
  "(RootHandle opts = Some fsys \<and> runScanStream ctx opts sid elapsed = (events, ctx') \<longrightarrow>
      (\<exists>pre ws err v f.
          events = pre @ [scanProgressMsg sid v f, scanFinishedMsg sid ws err v f]
          \<and> (\<forall>m \<in> set pre. \<not> isFinished m)
          \<and> err \<noteq> Some Canceled
          \<and> (ctx' = Cancelled \<longrightarrow> err = None)
          \<and> (\<forall>n. ctx = CancelAfter n \<longrightarrow> v \<le> n \<and> length (scanRows pre) \<le> v))
      \<and> (fst (ctxErr ctx) \<longrightarrow>
            events = [scanProgressMsg sid 0 0, scanFinishedMsg sid [] None 0 0]
            \<and> ctx' = Cancelled))
   \<and> (fst (ctxErr (sCtx s)) \<longrightarrow>
        walkDir (scanFn opts sid) path t s = (Some Canceled, s\<lparr>sCtx := Cancelled\<rparr>)
        \<and> walkDirs (scanFn opts sid) path (t # rest) s = (Some Canceled, s\<lparr>sCtx := Cancelled\<rparr>))
   \<and> (ctxErr (sCtx s) = (False, c) \<and> EntryIsDir d \<and> \<not> skipped opts path d
        \<and> Targets opts (EntryName d) = Some def \<and> RootHandle opts = Some fsys
        \<and> fst (ctxErr c) \<longrightarrow>
        walkDir (scanFn opts sid) path (Node d rerr dirs) s =
          (Some Canceled, (visitState sid c s)\<lparr>sCtx := Cancelled\<rparr>))
   \<and> (walkDir (scanFn opts sid) (pathJoin path (EntryName (entry k))) k s1 = (Some Canceled, s2) \<longrightarrow>
        walkDirs (scanFn opts sid) path (k # rest) s1 = (Some Canceled, s2))
   \<and> (EntryIsDir d \<and> scanFn opts sid path (Some d) None s0 = (None, s1)
        \<and> walkDirs (scanFn opts sid) path dirs s1 = (Some Canceled, s2) \<longrightarrow>
        walkDir (scanFn opts sid) path (Node d None dirs) s0 = (Some Canceled, s2))
   \<and> (RootHandle opts = Some fsys \<and> fsys ''.'' = Inr t
        \<and> walkDir (scanFn opts sid) ''.'' t (scanStart ctx elapsed) = (Some Canceled, st) \<longrightarrow>
        runScanStream ctx opts sid elapsed =
          (sOut st @ [scanProgressMsg sid (sVisited st) (sFound st),
             scanFinishedMsg sid (sWarnings st) None (sVisited st) (sFound st)],
           sCtx st))"
proof (intro conjI impI)
  assume "RootHandle opts = Some fsys \<and> runScanStream ctx opts sid elapsed = (events, ctx')"
  then show "\<exists>pre ws err v f.
          events = pre @ [scanProgressMsg sid v f, scanFinishedMsg sid ws err v f]
          \<and> (\<forall>m \<in> set pre. \<not> isFinished m)
          \<and> err \<noteq> Some Canceled
          \<and> (ctx' = Cancelled \<longrightarrow> err = None)
          \<and> (\<forall>n. ctx = CancelAfter n \<longrightarrow> v \<le> n \<and> length (scanRows pre) \<le> v)"
    using scan_completion [of opts fsys ctx sid elapsed events ctx'] by simp
next
  assume "RootHandle opts = Some fsys \<and> runScanStream ctx opts sid elapsed = (events, ctx')"
    and "fst (ctxErr ctx)"
  then show "events = [scanProgressMsg sid 0 0, scanFinishedMsg sid [] None 0 0]"
    using scan_cancelled_at_start [of opts fsys ctx sid elapsed events ctx'] by simp
next
  assume "RootHandle opts = Some fsys \<and> runScanStream ctx opts sid elapsed = (events, ctx')"
    and "fst (ctxErr ctx)"
  then show "ctx' = Cancelled"
    using scan_cancelled_at_start [of opts fsys ctx sid elapsed events ctx'] by simp
next
  assume "fst (ctxErr (sCtx s))"
  then show "walkDir (scanFn opts sid) path t s = (Some Canceled, s\<lparr>sCtx := Cancelled\<rparr>)"
    by (rule walkDir_cancelled)
next
  assume "fst (ctxErr (sCtx s))"
  then show "walkDirs (scanFn opts sid) path (t # rest) s = (Some Canceled, s\<lparr>sCtx := Cancelled\<rparr>)"
    by (rule walkDirs_cancelled)
next
  assume "ctxErr (sCtx s) = (False, c) \<and> EntryIsDir d \<and> \<not> skipped opts path d
        \<and> Targets opts (EntryName d) = Some def \<and> RootHandle opts = Some fsys
        \<and> fst (ctxErr c)"
  then show "walkDir (scanFn opts sid) path (Node d rerr dirs) s =
          (Some Canceled, (visitState sid c s)\<lparr>sCtx := Cancelled\<rparr>)"
    using walkDir_size_cancelled [of s c d opts path "def" fsys sid rerr dirs] by simp
next
  assume "walkDir (scanFn opts sid) (pathJoin path (EntryName (entry k))) k s1 = (Some Canceled, s2)"
  then show "walkDirs (scanFn opts sid) path (k # rest) s1 = (Some Canceled, s2)"
    by simp
next
  assume "EntryIsDir d \<and> scanFn opts sid path (Some d) None s0 = (None, s1)
        \<and> walkDirs (scanFn opts sid) path dirs s1 = (Some Canceled, s2)"
  then show "walkDir (scanFn opts sid) path (Node d None dirs) s0 = (Some Canceled, s2)"
    by simp
next
  assume "RootHandle opts = Some fsys \<and> fsys ''.'' = Inr t
        \<and> walkDir (scanFn opts sid) ''.'' t (scanStart ctx elapsed) = (Some Canceled, st)"
  then show "runScanStream ctx opts sid elapsed =
          (sOut st @ [scanProgressMsg sid (sVisited st) (sFound st),
             scanFinishedMsg sid (sWarnings st) None (sVisited st) (sFound st)],
           sCtx st)"
    using scan_cancelled_run [of opts fsys t sid ctx elapsed st] by simp
qed

lemma scenario_cancelled_run:
  "runScanStream (CancelAfter 5) scenarioOpts 1 [True] =
     ([scanProgressMsg 1 1 0, scanProgressMsg 1 3 0, scanFinishedMsg 1 [] None 3 0], Cancelled)"
  by code_simp

lemma scenario_cancelled_early:
  "runScanStream (CancelAfter 1) scenarioOpts 1 [] =
     ([scanProgressMsg 1 1 0, scanFinishedMsg 1 [] None 1 0], Cancelled)"
  by code_simp

theorem scan_cancelled_no_error_witness:
  "RootHandle scenarioOpts = Some (treeFS scenarioTree)
   \<and> runScanStream (CancelAfter 5) scenarioOpts 1 [True] =
       ([scanProgressMsg 1 1 0, scanProgressMsg 1 3 0, scanFinishedMsg 1 [] None 3 0], Cancelled)
   \<and> (\<exists>pre ws v f.
         [scanProgressMsg 1 1 0, scanProgressMsg 1 3 0, scanFinishedMsg 1 [] None 3 0] =
           pre @ [scanProgressMsg 1 v f, scanFinishedMsg 1 ws None v f]
         \<and> v \<le> 5 \<and> length (scanRows pre) \<le> v)
   \<and> runScanStream (CancelAfter 1) scenarioOpts 1 [] =
       ([scanProgressMsg 1 1 0, scanFinishedMsg 1 [] None 1 0], Cancelled)
   \<and> fst (ctxErr (CancelAfter 0))
   \<and> walkDir (scanFn scenarioOpts 1) ''proj/node_modules'' scenarioModules
        \<lparr>sCtx = CancelAfter 0, sWarnings = [], sVisited = 2, sFound = 0, sOut = [], sDue = []\<rparr> =
      (Some Canceled,
        \<lparr>sCtx = Cancelled, sWarnings = [], sVisited = 2, sFound = 0, sOut = [], sDue = []\<rparr>)"
proof -
  have root: "RootHandle scenarioOpts = Some (treeFS scenarioTree)"
    by (simp add: scenarioOpts_def)
  note inst = scan_cancelled_no_error [where opts = scenarioOpts and fsys = "treeFS scenarioTree"
      and ctx = "CancelAfter 5" and sid = 1 and elapsed = "[True]" and ctx' = Cancelled
      and events = "[scanProgressMsg 1 1 0, scanProgressMsg 1 3 0, scanFinishedMsg 1 [] None 3 0]"
      and s = "\<lparr>sCtx = CancelAfter 0, sWarnings = [], sVisited = 2, sFound = 0, sOut = [],
        sDue = []\<rparr>"
      and path = "''proj/node_modules''" and t = scenarioModules]
  from inst [THEN conjunct1] root scenario_cancelled_run
  obtain pre ws err v f where
    ev: "[scanProgressMsg 1 1 0, scanProgressMsg 1 3 0, scanFinishedMsg 1 [] None 3 0] =
           pre @ [scanProgressMsg 1 v f, scanFinishedMsg 1 ws err v f]"
    and none: "Cancelled = Cancelled \<longrightarrow> err = None"
    and bound: "\<forall>n. CancelAfter 5 = CancelAfter n \<longrightarrow> v \<le> n \<and> length (scanRows pre) \<le> v"
    by blast
  from none have "err = None" by simp
  moreover from bound have "v \<le> 5 \<and> length (scanRows pre) \<le> v" by simp
  ultimately have ex: "\<exists>pre ws v f.
         [scanProgressMsg 1 1 0, scanProgressMsg 1 3 0, scanFinishedMsg 1 [] None 3 0] =
           pre @ [scanProgressMsg 1 v f, scanFinishedMsg 1 ws None v f]
         \<and> v \<le> 5 \<and> length (scanRows pre) \<le> v"
    using ev by blast
  have live: "fst (ctxErr (CancelAfter 0))" by simp
  from inst [THEN conjunct2, THEN conjunct1] have stop: "walkDir (scanFn scenarioOpts 1) ''proj/node_modules'' scenarioModules
        \<lparr>sCtx = CancelAfter 0, sWarnings = [], sVisited = 2, sFound = 0, sOut = [], sDue = []\<rparr> =
      (Some Canceled,
        \<lparr>sCtx = Cancelled, sWarnings = [], sVisited = 2, sFound = 0, sOut = [], sDue = []\<rparr>)"
    by simp
  from root scenario_cancelled_run ex scenario_cancelled_early live stop show ?thesis
    by blast
qed






text \<open>
  C2, as the code has it. Where the root handle finds a tree at the path, every size
  that \<open>dirSize\<close> returns is the total of the sizes of all entries below it that are
  not directories, symbolic links among them, directories marked as symbolic links
  being passed over; on a tree that can be read, with a context that is never
  cancelled, \<open>dirSize\<close> does return it; and below a tree without symbolic links
  that total is the total size of the regular files. Every row that a scan reports
  carries this total for the tree at its path.
\<close>

theorem dirSize_entries_total:
  "(fsys relPath = Inr t \<longrightarrow>
      (\<forall>n c'. dirSize ctx (Some fsys) relPath = (Inr n, c') \<longrightarrow> n = entriesTotal t)
      \<and> (readable t \<longrightarrow>
           dirSize Background (Some fsys) relPath = (Inr (entriesTotal t), Background))
      \<and> (linkFree t \<longrightarrow> entriesTotal t = regularTotal t))
   \<and> (RootHandle opts = Some fsys \<and> runScanStream ctx opts sid elapsed = (events, ctx') \<longrightarrow>
        (\<forall>row \<in> set (scanRows events).
           \<exists>t. fsys (RelPath row) = Inr t \<and> SizeBytes row = entriesTotal t))"
  using dirSize_total [of fsys relPath t ctx] dirSize_readable [of fsys relPath t]
    linkFree_totals [of t] runScanStream_row_sizes [of opts fsys ctx sid elapsed events ctx']
  by blast

lemma linked_lookup: "treeFS linkedTree ''proj/node_modules'' = Inr linkedModules"
  by code_simp

lemma linked_dirSize:
  "dirSize Background (Some (treeFS linkedTree)) ''proj/node_modules'' = (Inr 1031, Background)"
  by code_simp

lemma linked_regular: "regularTotal linkedModules = 1024"
  by code_simp

theorem dirSize_regular_counterexample:
  "treeFS linkedTree ''proj/node_modules'' = Inr linkedModules
   \<and> readable linkedModules
   \<and> dirSize Background (Some (treeFS linkedTree)) ''proj/node_modules'' = (Inr 1031, Background)
   \<and> regularTotal linkedModules = 1024"
proof -
  have "readable linkedModules" by code_simp
  with linked_lookup linked_dirSize linked_regular show ?thesis by blast
qed

lemma scenario_lookup: "treeFS scenarioTree ''proj/node_modules'' = Inr scenarioModules"
  by code_simp

lemma scenario_run:
  "runScanStream Background scenarioOpts 1 [] =
     ([scanRowMsg 1 rowNodeModules, scanProgressMsg 1 3 1, scanRowMsg 1 rowTarget,
       scanProgressMsg 1 4 2, scanProgressMsg 1 4 2, scanFinishedMsg 1 [] None 4 2],
      Background)"
  by code_simp

theorem dirSize_entries_total_witness:
  "treeFS scenarioTree ''proj/node_modules'' = Inr scenarioModules
   \<and> readable scenarioModules \<and> linkFree scenarioModules
   \<and> dirSize Background (Some (treeFS scenarioTree)) ''proj/node_modules'' = (Inr 1024, Background)
   \<and> regularTotal scenarioModules = 1024
   \<and> treeFS linkedTree ''proj/node_modules'' = Inr linkedModules
   \<and> dirSize Background (Some (treeFS linkedTree)) ''proj/node_modules'' =
       (Inr (entriesTotal linkedModules), Background)
   \<and> (\<exists>t. treeFS scenarioTree (RelPath rowTarget) = Inr t \<and> SizeBytes rowTarget = entriesTotal t)"
proof -
  have rd: "readable scenarioModules" by code_simp
  have lf: "linkFree scenarioModules" by code_simp
  have tot: "entriesTotal scenarioModules = 1024" by code_simp
  note a = dirSize_entries_total [where fsys = "treeFS scenarioTree"
      and relPath = "''proj/node_modules''" and t = scenarioModules and opts = scenarioOpts
      and ctx = Background and sid = 1 and elapsed = "[]" and ctx' = Background
      and events = "[scanRowMsg 1 rowNodeModules, scanProgressMsg 1 3 1, scanRowMsg 1 rowTarget,
       scanProgressMsg 1 4 2, scanProgressMsg 1 4 2, scanFinishedMsg 1 [] None 4 2]"]
  have d0: "dirSize Background (Some (treeFS scenarioTree)) ''proj/node_modules'' =
      (Inr (entriesTotal scenarioModules), Background)"
    using a scenario_lookup rd by blast
  have d: "dirSize Background (Some (treeFS scenarioTree)) ''proj/node_modules'' = (Inr 1024, Background)"
    using d0 by (simp only: tot)
  have r0: "entriesTotal scenarioModules = regularTotal scenarioModules"
    using a scenario_lookup lf by blast
  have r: "regularTotal scenarioModules = 1024"
    using r0 tot by simp
  have root: "RootHandle scenarioOpts = Some (treeFS scenarioTree)"
    by (simp add: scenarioOpts_def)
  have rows: "\<forall>row \<in> set (scanRows [scanRowMsg 1 rowNodeModules, scanProgressMsg 1 3 1,
       scanRowMsg 1 rowTarget, scanProgressMsg 1 4 2, scanProgressMsg 1 4 2,
       scanFinishedMsg 1 [] None 4 2]).
         \<exists>t. treeFS scenarioTree (RelPath row) = Inr t \<and> SizeBytes row = entriesTotal t"
    using a root scenario_run by blast
  have row: "\<exists>t. treeFS scenarioTree (RelPath rowTarget) = Inr t \<and> SizeBytes rowTarget = entriesTotal t"
    using rows by simp
  have rdl: "readable linkedModules" by code_simp
  have l: "dirSize Background (Some (treeFS linkedTree)) ''proj/node_modules'' =
       (Inr (entriesTotal linkedModules), Background)"
    using dirSize_entries_total [where fsys = "treeFS linkedTree"
      and relPath = "''proj/node_modules''" and t = linkedModules] linked_lookup rdl
    by blast
  from scenario_lookup rd lf d r linked_lookup l row show ?thesis by blast
qed

text \<open>
  C3. At a directory that is not skipped, whose name is in the catalog and whose size
  computation succeeds, the walk sends the row of the directory and one progress
  message, counts one directory and one match, and ends there without error whatever
  the directory holds: its entries are not walked. So, for a well-formed tree, the
  rows of a scan have different paths, and the path of no row continues the path of
  another row: no directory inside a reported one is reported.
\<close>

theorem matched_directory_is_leaf:
  "(ctxErr (sCtx s) = (False, c) \<and> EntryIsDir d \<and> \<not> skipped opts path d
      \<and> Targets opts (EntryName d) = Some def
      \<and> dirSize c (RootHandle opts) path = (Inr n, c2) \<longrightarrow>
      walkDir (scanFn opts sid) path (Node d rerr dirs) s =
        (None,
         sendProgress sid True
           ((visitState sid c s)\<lparr>sCtx := c2, sFound := sFound s + 1,
              sOut := sOut (visitState sid c s) @ [scanRowMsg sid (rowOf path def n)]\<rparr>))
      \<and> (\<exists>st. walkDir (scanFn opts sid) path (Node d rerr dirs) s = (None, st)
             \<and> scanRows (sOut st) = scanRows (sOut s) @ [rowOf path def n]
             \<and> sFound st = sFound s + 1 \<and> sVisited st = sVisited s + 1
             \<and> sWarnings st = sWarnings s))
   \<and> (RootHandle opts = Some fsys \<and> fsys ''.'' = Inr t \<and> wfTree t
        \<and> runScanStream ctx opts sid elapsed = (events, ctx') \<longrightarrow>
        distinct (map RelPath (scanRows events))
        \<and> (\<forall>r \<in> set (scanRows events). \<forall>r' \<in> set (scanRows events).
              prefix (splitOn PathSeparator (RelPath r)) (splitOn PathSeparator (RelPath r'))
              \<longrightarrow> r = r'))"
proof (intro conjI impI)
  assume a: "ctxErr (sCtx s) = (False, c) \<and> EntryIsDir d \<and> \<not> skipped opts path d
      \<and> Targets opts (EntryName d) = Some def
      \<and> dirSize c (RootHandle opts) path = (Inr n, c2)"
  then show "walkDir (scanFn opts sid) path (Node d rerr dirs) s =
        (None,
         sendProgress sid True
           ((visitState sid c s)\<lparr>sCtx := c2, sFound := sFound s + 1,
              sOut := sOut (visitState sid c s) @ [scanRowMsg sid (rowOf path def n)]\<rparr>))"
    using walkDir_matched [of s c d opts path "def" n c2 sid rerr dirs] by simp
  from a show "\<exists>st. walkDir (scanFn opts sid) path (Node d rerr dirs) s = (None, st)
             \<and> scanRows (sOut st) = scanRows (sOut s) @ [rowOf path def n]
             \<and> sFound st = sFound s + 1 \<and> sVisited st = sVisited s + 1
             \<and> sWarnings st = sWarnings s"
    using walkDir_matched_rows [of s c d opts path "def" n c2 sid rerr dirs] by simp
next
  assume b: "RootHandle opts = Some fsys \<and> fsys ''.'' = Inr t \<and> wfTree t
        \<and> runScanStream ctx opts sid elapsed = (events, ctx')"
  then show "distinct (map RelPath (scanRows events))"
    using scan_rows_leaves(1) [of opts fsys t ctx sid elapsed events ctx'] by simp
  from b show "\<forall>r \<in> set (scanRows events). \<forall>r' \<in> set (scanRows events).
              prefix (splitOn PathSeparator (RelPath r)) (splitOn PathSeparator (RelPath r'))
              \<longrightarrow> r = r'"
    using scan_rows_leaves(2) [of opts fsys t ctx sid elapsed events ctx'] by simp
qed

lemma nested_run:
  "runScanStream Background nestedOpts 1 [] =
     ([scanRowMsg 1 rowNested, scanProgressMsg 1 3 1, scanProgressMsg 1 3 1,
       scanFinishedMsg 1 [] None 3 1], Background)"
  by code_simp

lemma nested_wf: "wfTree nestedTree"
  by code_simp

lemma nested_root: "treeFS nestedTree ''.'' = Inr nestedTree"
  by (simp add: treeFS_def)

lemma scenario_wf: "wfTree scenarioTree"
  by code_simp

theorem matched_directory_is_leaf_witness:
  "RootHandle nestedOpts = Some (treeFS nestedTree) \<and> wfTree nestedTree
   \<and> runScanStream Background nestedOpts 1 [] =
     ([scanRowMsg 1 rowNested, scanProgressMsg 1 3 1, scanProgressMsg 1 3 1,
       scanFinishedMsg 1 [] None 3 1], Background)
   \<and> scanRows [scanRowMsg 1 rowNested, scanProgressMsg 1 3 1, scanProgressMsg 1 3 1,
       scanFinishedMsg 1 [] None 3 1] = [rowNested]
   \<and> distinct (map RelPath (scanRows (fst (runScanStream Background scenarioOpts 1 []))))
   \<and> scanRows (fst (runScanStream Background scenarioOpts 1 [])) = [rowNodeModules, rowTarget]
   \<and> \<not> prefix (splitOn PathSeparator (RelPath rowNodeModules))
           (splitOn PathSeparator (RelPath rowTarget))"
proof -
  have r1: "RootHandle nestedOpts = Some (treeFS nestedTree)"
    by (simp add: nestedOpts_def)
  have r2: "RootHandle scenarioOpts = Some (treeFS scenarioTree)"
    by (simp add: scenarioOpts_def)
  have s0: "treeFS scenarioTree ''.'' = Inr scenarioTree"
    by (simp add: treeFS_def)
  have rows1: "scanRows [scanRowMsg 1 rowNested, scanProgressMsg 1 3 1, scanProgressMsg 1 3 1,
       scanFinishedMsg 1 [] None 3 1] = [rowNested]"
    by simp
  have rows2: "scanRows (fst (runScanStream Background scenarioOpts 1 [])) = [rowNodeModules, rowTarget]"
    by (simp add: scenario_run)
  note inst = matched_directory_is_leaf [where opts = scenarioOpts and fsys = "treeFS scenarioTree"
      and t = scenarioTree and ctx = Background and sid = 1 and elapsed = "[]"
      and events = "fst (runScanStream Background scenarioOpts 1 [])" and ctx' = Background,
      THEN conjunct2]
  have run: "runScanStream Background scenarioOpts 1 [] =
      (fst (runScanStream Background scenarioOpts 1 []), Background)"
    by (simp add: scenario_run)
  from inst r2 s0 scenario_wf run
  have d: "distinct (map RelPath (scanRows (fst (runScanStream Background scenarioOpts 1 []))))"
    and p: "\<forall>r \<in> set (scanRows (fst (runScanStream Background scenarioOpts 1 []))).
            \<forall>r' \<in> set (scanRows (fst (runScanStream Background scenarioOpts 1 []))).
              prefix (splitOn PathSeparator (RelPath r)) (splitOn PathSeparator (RelPath r'))
              \<longrightarrow> r = r'"
    by blast+
  have ne: "rowNodeModules \<noteq> rowTarget"
    by (simp add: rowNodeModules_def rowTarget_def)
  from p ne have np: "\<not> prefix (splitOn PathSeparator (RelPath rowNodeModules))
           (splitOn PathSeparator (RelPath rowTarget))"
    unfolding rows2 by auto
  from r1 nested_wf nested_run rows1 d rows2 np show ?thesis by blast
qed

end
